theory Spec2Isabelle
  imports
    Main
    "HOL-Library.Char_ord"
    "HOL-Library.List_Lexorder"
    "HOL-Library.Product_Lexorder"
    "HOL-Library.Multiset"
begin

section \<open>The ledger core of gigobooks: \<open>src/core/Transaction.ts\<close>\<close>

text \<open>
  Conventions of the embedding.
  \<^item> A JavaScript \<open>number\<close> that holds an id, a sign or an amount is an \<open>int\<close>: amounts
    are integers in the minor unit of their currency. Arithmetic on them is the
    arithmetic of doubles, see below.
  \<^item> An optional field (\<open>id?: number\<close>) is an \<open>option\<close>; \<open>None\<close> is \<open>undefined\<close>.
  \<^item> Strings are \<open>string\<close>, compared lexicographically character by character, as
    JavaScript's \<open><\<close> and SQLite's binary collation do on ASCII text.
  \<^item> Objects that the code shares by reference (the elements of a transaction) live in an
    explicit store, a map from addresses to element values.
  \<^item> A leading underscore of a source name is written as the prefix \<open>p_\<close>:
    \<open>_getBalances\<close> is \<open>p_getBalances\<close>, \<open>_save\<close> is \<open>p_save\<close>, the field \<open>_parent\<close> is
    \<open>p_parent\<close>. The field \<open>id\<close> is \<open>id_e\<close> on elements and \<open>id_t\<close> on transactions.
\<close>

subsection \<open>Data\<close>

datatype TransactionType =
  Raw | Contribution | Sale | Invoice | InvoicePayment | Purchase | Bill | BillPayment

type_synonym addr = nat

text \<open>\<open>IElement\<close>: the plain objects handed to \<open>mergeElements\<close> and to the balance functions.\<close>

record IElement =
  id_e :: "int option"
  transactionId :: "int option"
  accountId :: "int option"
  drcr :: int
  amount :: int
  currency :: string
  parentId :: "int option"
  taxCode :: "string option"

text \<open>\<open>type TElement = Element & { _parent?: TElement }\<close>: the reference is an address.\<close>

record TElement = IElement +
  p_parent :: "addr option"

definition Credit :: int where "Credit = - 1"
definition Debit :: int where "Debit = 1"

text \<open>JavaScript truthiness of an optional number and of an optional string.\<close>

fun truthy :: "int option \<Rightarrow> bool" where
  "truthy None = False"
| "truthy (Some n) = (n \<noteq> 0)"

fun truthy_str :: "string option \<Rightarrow> bool" where
  "truthy_str None = False"
| "truthy_str (Some s) = (s \<noteq> [])"

subsection \<open>JavaScript numbers\<close>

text \<open>
  An amount is a JavaScript \<open>number\<close>, a double. The model covers the values that the
  spec allows, integers: a finite number is \<open>Fin n\<close> for the integer \<open>n\<close> it equals, and the
  fields \<open>amount\<close> and \<open>drcr\<close> of an element hold such integers. Sums and products are
  rounded as the machine rounds them: to 53 significant bits, a tie to the even
  neighbour, and to an infinity from \<open>2^1024 - 2^970\<close> on. \<open>shift_of n\<close> is the number of
  low bits that \<open>n\<close> has beyond 53.
\<close>

datatype jsnum = Fin int | PosInf | NegInf | NaN

function shift_of :: "int \<Rightarrow> nat" where
  "shift_of n = (if n < 2 ^ 53 then 0 else Suc (shift_of (n div 2)))"
  by pat_completeness auto
termination
  by (relation "measure nat") auto

declare shift_of.simps [simp del]

definition round_mag :: "int \<Rightarrow> int" where
  "round_mag n =
     (let e = shift_of n; q = n div 2 ^ e; r = n mod 2 ^ e
      in if 2 * r < 2 ^ e \<or> (2 * r = 2 ^ e \<and> even q) then q * 2 ^ e else (q + 1) * 2 ^ e)"

definition fl :: "int \<Rightarrow> jsnum" where
  "fl x =
     (let m = round_mag \<bar>x\<bar>
      in if 2 ^ 1024 \<le> m then (if x < 0 then NegInf else PosInf)
         else Fin (if x < 0 then - m else m))"

fun js_add :: "jsnum \<Rightarrow> jsnum \<Rightarrow> jsnum" where
  "js_add (Fin a) (Fin b) = fl (a + b)"
| "js_add NaN _ = NaN"
| "js_add _ NaN = NaN"
| "js_add PosInf NegInf = NaN"
| "js_add NegInf PosInf = NaN"
| "js_add PosInf _ = PosInf"
| "js_add _ PosInf = PosInf"
| "js_add NegInf _ = NegInf"
| "js_add _ NegInf = NegInf"

definition js_times :: "int \<Rightarrow> int \<Rightarrow> jsnum" where
  "js_times a b = fl (a * b)"

subsection \<open>Balance aggregation: \<open>_getBalances\<close> and \<open>isBalanced\<close>\<close>

text \<open>
  \<open>balances: Record<string, number> = {}\<close> is an ordinary object. Its own properties
  are an association list in insertion order. (\<open>Object.keys\<close> lists keys that look like
  array indices first; the keys are pairwise distinct and the list is sorted afterwards,
  so the order of enumeration does not show in the result: lemma \<open>sort_key_by_keys\<close>.)

  Reading \<open>balances[c]\<close> finds an own property, or else what every object inherits: a
  function under the names of \<open>inherited_functions\<close>, the prototype object under
  \<open>__proto__\<close>, and \<open>undefined\<close> under any other name. Adding a number to a function or
  to an object makes a string: the text of the function or object followed by the
  number as text. Such a string is kept as the list of its parts, \<open>Native c\<close> for the text
  of what is inherited under \<open>c\<close> and \<open>Rendered x\<close> for the number \<open>x\<close> as text.

  Writing \<open>balances[c] = v\<close> sets an own property, except under \<open>__proto__\<close>, where the
  assignment of a number or a string has no effect.
\<close>

datatype piece = Native string | Rendered jsnum

datatype jsval = Num jsnum | Text "piece list"

record Money =
  m_amount :: jsval
  m_currency :: string

definition inherited_functions :: "string list" where
  "inherited_functions =
     [''constructor'', ''hasOwnProperty'', ''isPrototypeOf'', ''propertyIsEnumerable'',
      ''toLocaleString'', ''toString'', ''valueOf'', ''__defineGetter__'',
      ''__defineSetter__'', ''__lookupGetter__'', ''__lookupSetter__'']"

datatype lookup = Own jsval | InheritedFunction | InheritedProto | Undefined

definition get :: "(string \<times> jsval) list \<Rightarrow> string \<Rightarrow> lookup" where
  "get bs c =
     (case map_of bs c of
        Some v \<Rightarrow> Own v
      | None \<Rightarrow>
          if c = ''__proto__'' then InheritedProto
          else if c \<in> set inherited_functions then InheritedFunction
          else Undefined)"

text \<open>\<open>upd\<close> sets an own property; \<open>assign\<close> is the assignment \<open>balances[c] = v\<close>.\<close>

fun upd :: "(string \<times> jsval) list \<Rightarrow> string \<Rightarrow> jsval \<Rightarrow> (string \<times> jsval) list" where
  "upd [] c v = [(c, v)]"
| "upd ((k, b) # bs) c v = (if k = c then (k, v) # bs else (k, b) # upd bs c v)"

definition assign :: "(string \<times> jsval) list \<Rightarrow> string \<Rightarrow> jsval \<Rightarrow> (string \<times> jsval) list" where
  "assign bs c v = (if c = ''__proto__'' then bs else upd bs c v)"

text \<open>\<open>balances[c] + x\<close>, from what reading \<open>balances[c]\<close> has found.\<close>

fun plus_val :: "string \<Rightarrow> lookup \<Rightarrow> jsnum \<Rightarrow> jsval" where
  "plus_val c (Own (Num a)) x = Num (js_add a x)"
| "plus_val c (Own (Text ps)) x = Text (ps @ [Rendered x])"
| "plus_val c InheritedFunction x = Text [Native c, Rendered x]"
| "plus_val c InheritedProto x = Text [Native c, Rendered x]"
| "plus_val c Undefined x = Num NaN"

text \<open>
  \<open>bump\<close> is the body of the \<open>forEach\<close>: if \<open>balances[c] == undefined\<close> the property is
  created with 0; then \<open>balances[c] += x\<close>. The flag \<open>sumMode\<close> is the parameter \<open>sum\<close>.
\<close>

definition bump :: "(string \<times> jsval) list \<Rightarrow> string \<Rightarrow> jsnum \<Rightarrow> (string \<times> jsval) list" where
  "bump bs c x =
     (let bs1 = (if get bs c = Undefined then assign bs c (Num (Fin 0)) else bs)
      in assign bs1 c (plus_val c (get bs1 c) x))"

definition term_of :: "bool \<Rightarrow> 'a IElement_scheme \<Rightarrow> jsnum" where
  "term_of sumMode e = (if sumMode then Fin (amount e) else js_times (drcr e) (amount e))"

definition tally :: "bool \<Rightarrow> 'a IElement_scheme list \<Rightarrow> (string \<times> jsval) list" where
  "tally sumMode es = foldl (\<lambda>bs e. bump bs (currency e) (term_of sumMode e)) [] es"

text \<open>
  Modelled from the spec: \<open>orderByField\<close> of \<open>src/util/util.ts\<close>, which is not among the
  sources. The spec has the output "sorted by currency code ascending"; the comparator
  returns a negative number, zero or a positive number as \<open>Array.prototype.sort\<close> expects.
\<close>

definition orderByField_currency :: "Money \<Rightarrow> Money \<Rightarrow> int" where
  "orderByField_currency a b =
     (if m_currency a < m_currency b then - 1 else if m_currency b < m_currency a then 1 else 0)"

text \<open>\<open>Array.prototype.sort\<close> with a comparator, as a stable insertion sort.\<close>

fun js_insert :: "('a \<Rightarrow> 'a \<Rightarrow> int) \<Rightarrow> 'a \<Rightarrow> 'a list \<Rightarrow> 'a list" where
  "js_insert cmp x [] = [x]"
| "js_insert cmp x (y # ys) = (if cmp x y \<le> 0 then x # y # ys else y # js_insert cmp x ys)"

definition js_sort :: "('a \<Rightarrow> 'a \<Rightarrow> int) \<Rightarrow> 'a list \<Rightarrow> 'a list" where
  "js_sort cmp xs = foldr (js_insert cmp) xs []"

definition p_getBalances :: "'a IElement_scheme list \<Rightarrow> bool \<Rightarrow> Money list" where
  "p_getBalances elements sumMode =
     js_sort orderByField_currency
       (map (\<lambda>(c, b). \<lparr>m_amount = b, m_currency = c\<rparr>) (tally sumMode elements))"

definition getSums :: "'a IElement_scheme list \<Rightarrow> Money list" where
  "getSums elements = p_getBalances elements True"

text \<open>
  \<open>balance.amount == 0\<close>: a number equals 0 when it is 0; the strings that arise begin
  with the text of a function or an object, which is not a numeral, and do not equal 0.
\<close>

fun equals_zero :: "jsval \<Rightarrow> bool" where
  "equals_zero (Num (Fin n)) = (n = 0)"
| "equals_zero (Num _) = False"
| "equals_zero (Text _) = False"

definition isBalanced :: "'a IElement_scheme list \<Rightarrow> bool" where
  "isBalanced elements = list_all (\<lambda>balance. equals_zero (m_amount balance)) (p_getBalances elements False)"

subsection \<open>The store, transactions and \<open>mergeElements\<close>\<close>

record heap =
  objs :: "addr \<Rightarrow> TElement"
  next_addr :: addr

definition alloc :: "TElement \<Rightarrow> heap \<Rightarrow> addr \<times> heap" where
  "alloc e h =
     (next_addr h, h\<lparr>objs := (objs h)(next_addr h := e), next_addr := Suc (next_addr h)\<rparr>)"

text \<open>
  The fields \<open>description\<close>, \<open>due\<close>, \<open>actorId\<close> of a transaction and \<open>settleId\<close>,
  \<open>useGross\<close>, \<open>description\<close> of an element are carried along by the code and never
  inspected by the functions below; they are left out.
\<close>

record Transaction =
  id_t :: "int option"
  type_t :: "TransactionType option"
  date_t :: "string option"
  elements :: "addr list option"

text \<open>
  Modelled from the spec: \<open>Element.construct\<close> of \<open>src/core/Element.ts\<close>, which is not
  among the sources. It makes a new element object that carries the fields of the plain
  object it is given.
\<close>

definition construct :: "IElement \<Rightarrow> TElement" where
  "construct c =
     \<lparr>id_e = id_e c, transactionId = transactionId c, accountId = accountId c,
      drcr = drcr c, amount = amount c, currency = currency c, parentId = parentId c,
      taxCode = taxCode c, p_parent = None\<rparr>"

datatype MergeError =
    NoItems
  | TransactionIdMismatch nat
  | FirstNotNonChild
  | IdNotFound int nat
  | NotBalanced

text \<open>The first loop: the index of the first item whose \<open>transactionId\<close> does not match.\<close>

fun checkTransactionId :: "int option \<Rightarrow> nat \<Rightarrow> IElement list \<Rightarrow> nat option" where
  "checkTransactionId tid i [] = None"
| "checkTransactionId tid i (c # cs) =
     (if truthy tid \<and> truthy (transactionId c) \<and> transactionId c \<noteq> tid then Some i
      else checkTransactionId tid (Suc i) cs)"

text \<open>
  The inner loop over \<open>elements\<close>: the first entry whose id equals \<open>e.id\<close> is overwritten
  and the loop breaks; \<open>None\<close> is \<open>matched == false\<close>.
\<close>

fun replaceById :: "(addr \<Rightarrow> TElement) \<Rightarrow> int option \<Rightarrow> addr \<Rightarrow> addr list \<Rightarrow> addr list option" where
  "replaceById f k a [] = None"
| "replaceById f k a (x # xs) =
     (if id_e (f x) = k then Some (a # xs)
      else (case replaceById f k a xs of None \<Rightarrow> None | Some ys \<Rightarrow> Some (x # ys)))"

text \<open>
  The main loop. \<open>i\<close> is the index of the current item, \<open>parent\<close> the most recent non-child
  element (\<open>None\<close> while the variable is still unassigned), \<open>els\<close> the working copy.
\<close>

fun mergeLoop ::
  "nat \<Rightarrow> IElement list \<Rightarrow> addr option \<Rightarrow> addr list \<Rightarrow> heap \<Rightarrow> heap \<times> (MergeError + addr list)" where
  "mergeLoop i [] parent els h = (h, Inr els)"
| "mergeLoop i (c # cs) parent els h =
     (let e0 = construct c;
          child = (parentId e0 = Some (- 1));
          e = (if child then e0\<lparr>p_parent := parent\<rparr> else e0\<lparr>parentId := Some 0\<rparr>);
          (a, h') = alloc e h;
          parent' = (if child then parent else Some a)
      in case id_e e of
           None \<Rightarrow> mergeLoop (Suc i) cs parent' (els @ [a]) h'
         | Some k \<Rightarrow>
             (case replaceById (objs h') (Some k) a els of
                None \<Rightarrow> (h', Inl (IdNotFound k i))
              | Some els' \<Rightarrow> mergeLoop (Suc i) cs parent' els' h'))"

text \<open>
  \<open>mergeElements\<close> returns the outcome of the promise together with the transaction and
  the store as the call leaves them.
\<close>

definition mergeElements ::
  "IElement list \<Rightarrow> Transaction \<Rightarrow> heap \<Rightarrow> (MergeError + unit) \<times> Transaction \<times> heap" where
  "mergeElements list t h =
     (case list of
        [] \<Rightarrow> (Inl NoItems, t, h)
      | c0 # _ \<Rightarrow>
          (case checkTransactionId (id_t t) 0 list of
             Some i \<Rightarrow> (Inl (TransactionIdMismatch i), t, h)
           | None \<Rightarrow>
               if truthy (parentId c0) then (Inl FirstNotNonChild, t, h)
               else
                 (case mergeLoop 0 list None (case elements t of None \<Rightarrow> [] | Some es \<Rightarrow> es) h of
                    (h', Inl err) \<Rightarrow> (Inl err, t, h')
                  | (h', Inr els) \<Rightarrow>
                      if \<not> isBalanced (map (objs h') els) then (Inl NotBalanced, t, h')
                      else (Inr (), t\<lparr>elements := Some els\<rparr>, h'))))"

subsection \<open>Storage and \<open>save\<close>\<close>

text \<open>
  The row store is an external collaborator. What the code asks of it is recorded as a
  sequence of calls; a call on an element records the address of the object and its
  field values at the moment of the call.
\<close>

datatype storage_call =
    TxnInsert int
  | TxnPatch int
  | ElementSave addr TElement
  | ElementDelete addr TElement

record storage =
  calls :: "storage_call list"
  next_txn_id :: int
  next_element_id :: int
  lastSavedDate :: "string option"

text \<open>
  Modelled from the spec: \<open>Element.save\<close> and \<open>Element.delete\<close> of \<open>src/core/Element.ts\<close>,
  which is not among the sources. Saving inserts an element without id, which gives the
  object its generated id, and patches an element with id ("insert new / patch
  existing", "row insert returning a generated id"); deleting removes the row by id.
\<close>

definition Element_save :: "addr \<Rightarrow> heap \<times> storage \<Rightarrow> heap \<times> storage" where
  "Element_save a = (\<lambda>(h, s).
     (case id_e (objs h a) of
        None \<Rightarrow>
          (let e' = (objs h a)\<lparr>id_e := Some (next_element_id s)\<rparr>
           in (h\<lparr>objs := (objs h)(a := e')\<rparr>,
               s\<lparr>calls := calls s @ [ElementSave a e'],
                 next_element_id := next_element_id s + 1\<rparr>))
      | Some k \<Rightarrow> (h, s\<lparr>calls := calls s @ [ElementSave a (objs h a)]\<rparr>)))"

definition Element_delete :: "addr \<Rightarrow> heap \<times> storage \<Rightarrow> heap \<times> storage" where
  "Element_delete a = (\<lambda>(h, s). (h, s\<lparr>calls := calls s @ [ElementDelete a (objs h a)]\<rparr>))"

text \<open>The getter \<open>balanced\<close>: \<open>!this.elements || Transaction.isBalanced(this.elements)\<close>.\<close>

definition balanced :: "Transaction \<Rightarrow> heap \<Rightarrow> bool" where
  "balanced t h = (case elements t of None \<Rightarrow> True | Some es \<Rightarrow> isBalanced (map (objs h) es))"

text \<open>
  The first loop of \<open>_save\<close>: the three batches. The state is the store and the lists
  \<open>parents\<close>, \<open>children\<close>, \<open>deletes\<close>; \<open>tid\<close> is \<open>this.id\<close>.
\<close>

definition batch_step ::
  "int option \<Rightarrow> heap \<times> addr list \<times> addr list \<times> addr list \<Rightarrow> addr
     \<Rightarrow> heap \<times> addr list \<times> addr list \<times> addr list" where
  "batch_step tid = (\<lambda>(h, parents, children, deletes) a.
     (let e = objs h a in
      if amount e \<noteq> 0 \<or> truthy_str (taxCode e) then
        (let h' = h\<lparr>objs := (objs h)(a := e\<lparr>transactionId := tid\<rparr>)\<rparr> in
         if p_parent e \<noteq> None \<or> truthy (parentId e)
         then (h', parents, children @ [a], deletes)
         else (h', parents @ [a], children, deletes))
      else if truthy (id_e e) then (h, parents, children, deletes @ [a])
      else (h, parents, children, deletes)))"

definition batches ::
  "int option \<Rightarrow> addr list \<Rightarrow> heap \<Rightarrow> heap \<times> addr list \<times> addr list \<times> addr list" where
  "batches tid es h = foldl (batch_step tid) (h, [], [], []) es"

text \<open>
  The second loop: each element of \<open>deletes\<close> first claims the children whose \<open>parentId\<close>
  is its id, is deleted, and then has its id set to 0.
\<close>

definition claim_step :: "addr \<Rightarrow> heap \<Rightarrow> addr \<Rightarrow> heap" where
  "claim_step e h c =
     (if parentId (objs h c) = id_e (objs h e)
      then h\<lparr>objs := (objs h)(c := (objs h c)\<lparr>p_parent := Some e\<rparr>)\<rparr>
      else h)"

definition delete_step :: "addr list \<Rightarrow> heap \<times> storage \<Rightarrow> addr \<Rightarrow> heap \<times> storage" where
  "delete_step children = (\<lambda>(h, s) e.
     (let h1 = foldl (claim_step e) h children;
          (h2, s2) = Element_delete e (h1, s)
      in (h2\<lparr>objs := (objs h2)(e := (objs h2 e)\<lparr>id_e := Some 0\<rparr>)\<rparr>, s2)))"

text \<open>The third loop saves the parents.\<close>

definition parent_step :: "heap \<times> storage \<Rightarrow> addr \<Rightarrow> heap \<times> storage" where
  "parent_step hs e = Element_save e hs"

text \<open>
  The fourth loop: a child with a \<open>_parent\<close> takes the id of that parent, or 0 when the
  parent has none, loses the reference, and is deleted or saved.
\<close>

definition child_step :: "heap \<times> storage \<Rightarrow> addr \<Rightarrow> heap \<times> storage" where
  "child_step = (\<lambda>(h, s) e.
     (case p_parent (objs h e) of
        None \<Rightarrow> (h, s)
      | Some p \<Rightarrow>
          (let pid = (if truthy (id_e (objs h p)) then id_e (objs h p) else Some 0);
               h1 = h\<lparr>objs := (objs h)(e := (objs h e)\<lparr>parentId := pid, p_parent := None\<rparr>)\<rparr>
           in if \<not> truthy (parentId (objs h1 e)) \<and> amount (objs h1 e) = 0
              then Element_delete e (h1, s)
              else Element_save e (h1, s))))"

definition p_save :: "Transaction \<Rightarrow> heap \<Rightarrow> storage \<Rightarrow> Transaction \<times> heap \<times> storage" where
  "p_save t h s =
     (let (t1, s1) =
            (case id_t t of
               None \<Rightarrow>
                 (t\<lparr>id_t := Some (next_txn_id s)\<rparr>,
                  s\<lparr>calls := calls s @ [TxnInsert (next_txn_id s)],
                    next_txn_id := next_txn_id s + 1\<rparr>)
             | Some i \<Rightarrow> (t, s\<lparr>calls := calls s @ [TxnPatch i]\<rparr>));
          s2 = s1\<lparr>lastSavedDate := date_t t1\<rparr>
      in case elements t1 of
           None \<Rightarrow> (t1, h, s2)
         | Some es \<Rightarrow>
             (let (h1, parents, children, deletes) = batches (id_t t1) es h;
                  hs2 = foldl (delete_step children) (h1, s2) deletes;
                  hs3 = foldl parent_step hs2 parents;
                  (h4, s4) = foldl child_step hs3 children
              in (t1, h4, s4)))"

datatype SaveError = InvalidDate | ElementsDoNotBalance

text \<open>
  \<open>save\<close>. The predicate \<open>isDateOnly\<close> of \<open>src/core/date.ts\<close> is not among the sources and
  is a parameter. The time stamp \<open>updatedAt\<close> is not modelled. With or without a
  transaction handle the code runs \<open>_save\<close>.
\<close>

definition save ::
  "(string \<Rightarrow> bool) \<Rightarrow> Transaction \<Rightarrow> heap \<Rightarrow> storage
     \<Rightarrow> (SaveError + unit) \<times> Transaction \<times> heap \<times> storage" where
  "save isDateOnly t h s =
     (if \<not> truthy_str (date_t t) \<or> \<not> (case date_t t of None \<Rightarrow> False | Some d \<Rightarrow> isDateOnly d)
      then (Inl InvalidDate, t, h, s)
      else if \<not> balanced t h then (Inl ElementsDoNotBalance, t, h, s)
      else (case p_save t h s of (t', h', s') \<Rightarrow> (Inr (), t', h', s')))"

subsection \<open>Navigation: \<open>prevId\<close> and \<open>nextId\<close>\<close>

text \<open>
  The table \<open>txn\<close> is a list of rows. \<open>save\<close> stores a transaction only with a date, so the
  column \<open>date\<close> of a row is a string; the column \<open>type\<close> may be null.
\<close>

record TxnRow =
  row_id :: int
  row_date :: string
  row_type :: "TransactionType option"

text \<open>The optional argument \<open>t?: {id?: number, date?: string}\<close>.\<close>

record Reference =
  id_r :: "int option"
  date_r :: "string option"

text \<open>The optional argument \<open>type?: TransactionType | TransactionType[]\<close>.\<close>

datatype TypeFilter = NoType | OneType TransactionType | ManyTypes "TransactionType list"

fun whereType :: "TypeFilter \<Rightarrow> TxnRow \<Rightarrow> bool" where
  "whereType NoType r = True"
| "whereType (OneType ty) r = (row_type r = Some ty)"
| "whereType (ManyTypes tys) r = (case row_type r of None \<Rightarrow> False | Some ty \<Rightarrow> ty \<in> set tys)"

text \<open>\<open>t && t.id && t.date\<close>: the reference counts only with a truthy id and a truthy date.\<close>

fun usable :: "Reference option \<Rightarrow> (string \<times> int) option" where
  "usable None = None"
| "usable (Some t) =
     (case (id_r t, date_r t) of
        (Some i, Some d) \<Rightarrow> if i \<noteq> 0 \<and> d \<noteq> [] then Some (d, i) else None
      | _ \<Rightarrow> None)"

definition whereBefore :: "Reference option \<Rightarrow> TxnRow \<Rightarrow> bool" where
  "whereBefore t r =
     (case usable t of
        None \<Rightarrow> True
      | Some (d, i) \<Rightarrow> row_date r < d \<or> (row_date r = d \<and> row_id r < i))"

definition whereAfter :: "Reference option \<Rightarrow> TxnRow \<Rightarrow> bool" where
  "whereAfter t r =
     (case usable t of
        None \<Rightarrow> True
      | Some (d, i) \<Rightarrow> d < row_date r \<or> (row_date r = d \<and> i < row_id r))"

text \<open>\<open>orderBy\<close> on the columns \<open>date\<close>, \<open>id\<close>, ascending or descending, and \<open>limit(1)\<close>.\<close>

definition row_key :: "TxnRow \<Rightarrow> string \<times> int" where
  "row_key r = (row_date r, row_id r)"

definition orderBy_asc :: "TxnRow list \<Rightarrow> TxnRow list" where
  "orderBy_asc rows = sort_key row_key rows"

definition orderBy_desc :: "TxnRow list \<Rightarrow> TxnRow list" where
  "orderBy_desc rows = rev (sort_key row_key rows)"

definition first_id :: "TxnRow list \<Rightarrow> int" where
  "first_id rows = (case take 1 rows of [] \<Rightarrow> 0 | r # _ \<Rightarrow> row_id r)"

definition prevId :: "Reference option \<Rightarrow> TypeFilter \<Rightarrow> TxnRow list \<Rightarrow> int" where
  "prevId t ty db =
     first_id (orderBy_desc (filter (\<lambda>r. whereType ty r \<and> whereBefore t r) db))"

definition nextId :: "Reference option \<Rightarrow> TypeFilter \<Rightarrow> TxnRow list \<Rightarrow> int" where
  "nextId t ty db =
     first_id (orderBy_asc (filter (\<lambda>r. whereType ty r \<and> whereAfter t r) db))"

subsection \<open>Notions used to state the properties\<close>












text \<open>The list that \<open>mergeElements\<close> copies: \<open>this.elements\<close>, or the empty list.\<close>

definition working :: "Transaction \<Rightarrow> addr list" where
  "working t = (case elements t of None \<Rightarrow> [] | Some es \<Rightarrow> es)"

text \<open>
  An element object carries a candidate: it has the candidate's fields, and its
  \<open>parentId\<close> is the child marker \<open>-1\<close> or 0.
\<close>

definition carries :: "IElement \<Rightarrow> TElement \<Rightarrow> bool" where
  "carries c e \<longleftrightarrow>
     id_e e = id_e c \<and> transactionId e = transactionId c \<and> accountId e = accountId c \<and>
     drcr e = drcr c \<and> amount e = amount c \<and> currency e = currency c \<and>
     taxCode e = taxCode c \<and>
     parentId e = (if parentId c = Some (- 1) then Some (- 1) else Some 0)"

definition noId :: "IElement list \<Rightarrow> IElement list" where
  "noId cs = filter (\<lambda>c. id_e c = None) cs"

text \<open>
  What a successful run of the main loop establishes, from the list \<open>els\<close> in the store
  \<open>h\<close> to the list \<open>els'\<close> in the store \<open>h'\<close>, for the candidates \<open>cs\<close>.
\<close>

definition merge_post :: "heap \<Rightarrow> addr list \<Rightarrow> IElement list \<Rightarrow> heap \<Rightarrow> addr list \<Rightarrow> bool" where
  "merge_post h els cs h' els' \<longleftrightarrow>
     length els' = length els + length (noId cs)
   \<and> (\<forall>a \<in> set els'. a < next_addr h')
   \<and> (\<forall>j < length els. id_e (objs h' (els' ! j)) = id_e (objs h (els ! j)))
   \<and> (\<forall>j < length els. els' ! j = els ! j \<or>
         (next_addr h \<le> els' ! j
          \<and> (\<forall>j' < j. id_e (objs h (els ! j')) \<noteq> id_e (objs h (els ! j)))
          \<and> (\<exists>c \<in> set cs. id_e c \<noteq> None \<and> id_e c = id_e (objs h (els ! j))
                \<and> carries c (objs h' (els' ! j)))))
   \<and> (\<forall>c \<in> set cs. id_e c \<noteq> None \<longrightarrow>
         (\<exists>j < length els. id_e (objs h (els ! j)) = id_e c \<and> next_addr h \<le> els' ! j))
   \<and> list_all2 carries (noId cs) (map (objs h') (drop (length els) els'))
   \<and> (\<forall>j. length els \<le> j \<and> j < length els' \<longrightarrow> next_addr h \<le> els' ! j)"

subsection \<open>Notions used to state the properties of \<open>_save\<close>\<close>

text \<open>
  The two tests of the first loop of \<open>_save\<close>: \<open>e.amount != 0 || e.taxCode\<close> and
  \<open>e._parent || e.parentId\<close>.
\<close>

definition kept :: "TElement \<Rightarrow> bool" where
  "kept e \<longleftrightarrow> amount e \<noteq> 0 \<or> truthy_str (taxCode e)"

definition hasParent :: "TElement \<Rightarrow> bool" where
  "hasParent e \<longleftrightarrow> p_parent e \<noteq> None \<or> truthy (parentId e)"

text \<open>Two stores agree up to the field \<open>transactionId\<close>.\<close>

definition same_but_tid :: "heap \<Rightarrow> heap \<Rightarrow> bool" where
  "same_but_tid h h' \<longleftrightarrow>
     next_addr h' = next_addr h \<and>
     (\<forall>x. objs h' x = (objs h x)\<lparr>transactionId := transactionId (objs h' x)\<rparr>)"

text \<open>
  The elements that the calls on the store have saved, respectively deleted, for the
  object at address \<open>x\<close>, in order.
\<close>

fun save_at :: "addr \<Rightarrow> storage_call \<Rightarrow> TElement option" where
  "save_at x (ElementSave y e) = (if x = y then Some e else None)"
| "save_at x _ = None"

fun delete_at :: "addr \<Rightarrow> storage_call \<Rightarrow> TElement option" where
  "delete_at x (ElementDelete y e) = (if x = y then Some e else None)"
| "delete_at x _ = None"

definition saves_of :: "addr \<Rightarrow> storage_call list \<Rightarrow> TElement list" where
  "saves_of x cs = List.map_filter (save_at x) cs"

definition deletes_of :: "addr \<Rightarrow> storage_call list \<Rightarrow> TElement list" where
  "deletes_of x cs = List.map_filter (delete_at x) cs"

text \<open>
  What the second loop may change: the \<open>_parent\<close> of an object, to an element of \<open>D\<close>, and
  the id of an element of \<open>D\<close>, to 0. What the third loop may change: the id of an element
  of \<open>P\<close>.
\<close>

definition del_frame :: "addr set \<Rightarrow> heap \<Rightarrow> heap \<Rightarrow> bool" where
  "del_frame D h h' \<longleftrightarrow>
     (\<forall>x. amount (objs h' x) = amount (objs h x)
        \<and> taxCode (objs h' x) = taxCode (objs h x)
        \<and> (p_parent (objs h' x) = p_parent (objs h x) \<or> (\<exists>e \<in> D. p_parent (objs h' x) = Some e))
        \<and> (id_e (objs h' x) = id_e (objs h x) \<or> (x \<in> D \<and> id_e (objs h' x) = Some 0)))"

definition par_frame :: "addr set \<Rightarrow> heap \<Rightarrow> heap \<Rightarrow> bool" where
  "par_frame P h h' \<longleftrightarrow>
     (\<forall>x. (x \<notin> P \<longrightarrow> objs h' x = objs h x)
        \<and> objs h' x = (objs h x)\<lparr>id_e := id_e (objs h' x)\<rparr>)"

subsection \<open>Concrete values for the examples\<close>

text \<open>
  The empty store, a candidate posting without id, and \<open>Transaction.construct({})\<close>.
\<close>

definition blank :: TElement where
  "blank = \<lparr>id_e = None, transactionId = None, accountId = None, drcr = 0, amount = 0,
            currency = [], parentId = None, taxCode = None, p_parent = None\<rparr>"

definition empty_heap :: heap where
  "empty_heap = \<lparr>objs = (\<lambda>_. blank), next_addr = 0\<rparr>"

definition posting :: "int \<Rightarrow> int \<Rightarrow> int \<Rightarrow> string \<Rightarrow> IElement" where
  "posting acc sign amt cur =
     \<lparr>id_e = None, transactionId = None, accountId = Some acc, drcr = sign, amount = amt,
      currency = cur, parentId = None, taxCode = None\<rparr>"

definition new_transaction :: Transaction where
  "new_transaction = \<lparr>id_t = None, type_t = None, date_t = None, elements = None\<rparr>"

text \<open>Stored elements, and the store that holds the elements of a list at 0, 1, ...\<close>

definition stored :: "int \<Rightarrow> int \<Rightarrow> int \<Rightarrow> int \<Rightarrow> string \<Rightarrow> TElement" where
  "stored i acc sign amt cur =
     \<lparr>id_e = Some i, transactionId = Some 1, accountId = Some acc, drcr = sign, amount = amt,
      currency = cur, parentId = Some 0, taxCode = None, p_parent = None\<rparr>"

definition heap_of :: "TElement list \<Rightarrow> heap" where
  "heap_of es = \<lparr>objs = (\<lambda>a. if a < length es then es ! a else blank), next_addr = length es\<rparr>"

text \<open>
  Three transactions dated 2020-01-01, 2020-01-02, 2020-01-02 with the ids 1, 2, 3.
\<close>

definition scenarioD :: "TxnRow list" where
  "scenarioD =
     [\<lparr>row_id = 1, row_date = ''2020-01-01'', row_type = Some Sale\<rparr>,
      \<lparr>row_id = 2, row_date = ''2020-01-02'', row_type = Some Sale\<rparr>,
      \<lparr>row_id = 3, row_date = ''2020-01-02'', row_type = Some Invoice\<rparr>]"

definition empty_storage :: storage where
  "empty_storage = \<lparr>calls = [], next_txn_id = 1, next_element_id = 1, lastSavedDate = None\<rparr>"

definition element ::
  "int option \<Rightarrow> int \<Rightarrow> int \<Rightarrow> string option \<Rightarrow> int option \<Rightarrow> addr option \<Rightarrow> TElement" where
  "element i sign amt tax pid par =
     \<lparr>id_e = i, transactionId = Some 1, accountId = Some 400, drcr = sign, amount = amt,
      currency = ''USD'', parentId = pid, taxCode = tax, p_parent = par\<rparr>"

definition stored_transaction :: "addr list \<Rightarrow> Transaction" where
  "stored_transaction es =
     \<lparr>id_t = Some 1, type_t = Some Sale, date_t = Some ''2020-01-01'', elements = Some es\<rparr>"

text \<open>
  A root with id 5 whose amount has been set to 0, its pending children with ids 6 and 7
  (tax postings of amounts 10 and 0), and the balancing debit with id 8.
\<close>

definition cascade_heap :: heap where
  "cascade_heap = heap_of
     [element (Some 5) Credit 0 (Some []) (Some 0) None,
      element (Some 6) Credit 10 (Some ''tax'') (Some (- 1)) (Some 0),
      element (Some 7) Credit 0 (Some ''zero'') (Some (- 1)) (Some 0),
      element (Some 8) Debit 10 (Some []) (Some 0) None]"

text \<open>
  A root with id 5 and amount 10, a pending child with id 7, amount 0 and an empty tax
  code, and the balancing debit with id 8.
\<close>

definition removed_tax_heap :: heap where
  "removed_tax_heap = heap_of
     [element (Some 5) Credit 10 (Some []) (Some 0) None,
      element (Some 7) Credit 0 (Some []) (Some (- 1)) (Some 0),
      element (Some 8) Debit 10 (Some []) (Some 0) None]"

text \<open>
  A stored transaction with a root (id 5) and its balancing debit (id 8); a first edit
  that adds two pending children to the root; a second edit of the root and the debit
  alone, which sets the amount of the root to 0; then \<open>_save\<close>.
\<close>

definition candidate ::
  "int option \<Rightarrow> int \<Rightarrow> int \<Rightarrow> string option \<Rightarrow> int option \<Rightarrow> IElement" where
  "candidate i sign amt tax pid =
     \<lparr>id_e = i, transactionId = None, accountId = Some 400, drcr = sign, amount = amt,
      currency = ''USD'', parentId = pid, taxCode = tax\<rparr>"

definition loaded_heap :: heap where
  "loaded_heap = heap_of
     [element (Some 5) Credit 10 (Some []) (Some 0) None,
      element (Some 8) Debit 10 (Some []) (Some 0) None]"

definition first_edit :: "IElement list" where
  "first_edit =
     [candidate (Some 5) Credit 10 (Some []) None,
      candidate None Credit 10 (Some ''tax'') (Some (- 1)),
      candidate None Credit 0 (Some ''zero'') (Some (- 1)),
      candidate (Some 8) Debit 20 (Some []) None]"

definition second_edit :: "IElement list" where
  "second_edit =
     [candidate (Some 5) Credit 0 (Some []) None,
      candidate (Some 8) Debit 10 (Some []) None]"

definition after_first_edit :: "(MergeError + unit) \<times> Transaction \<times> heap" where
  "after_first_edit = mergeElements first_edit (stored_transaction [0, 1]) loaded_heap"

definition after_second_edit :: "(MergeError + unit) \<times> Transaction \<times> heap" where
  "after_second_edit =
     mergeElements second_edit (fst (snd after_first_edit)) (snd (snd after_first_edit))"

definition two_edits_then_save :: "Transaction \<times> heap \<times> storage" where
  "two_edits_then_save =
     p_save (fst (snd after_second_edit)) (snd (snd after_second_edit)) empty_storage"





section \<open>Properties\<close>

subsection \<open>The balance aggregator\<close>

lemma shift_small: "n < 2 ^ 53 \<Longrightarrow> shift_of n = 0"
  by (simp add: shift_of.simps)

lemma shift_large: "\<not> n < 2 ^ 53 \<Longrightarrow> shift_of n = Suc (shift_of (n div 2))"
  by (subst shift_of.simps) simp

lemma fl_exact: "\<bar>x\<bar> < 2 ^ 53 \<Longrightarrow> fl x = Fin x"
proof -
  assume a: "\<bar>x\<bar> < 2 ^ 53"
  then have r: "round_mag \<bar>x\<bar> = \<bar>x\<bar>"
    by (simp add: round_mag_def shift_small)
  have "\<bar>x\<bar> < 2 ^ 1024"
    using a by (rule less_le_trans) simp
  then show ?thesis by (auto simp: fl_def r Let_def)
qed

lemma js_add_exact: "\<bar>a\<bar> + \<bar>b\<bar> < 2 ^ 53 \<Longrightarrow> js_add (Fin a) (Fin b) = Fin (a + b)"
  by (simp add: fl_exact)

lemma js_times_exact: "\<bar>a * b\<bar> < 2 ^ 53 \<Longrightarrow> js_times a b = Fin (a * b)"
  by (simp add: js_times_def fl_exact)

lemmas bal_defs = isBalanced_def p_getBalances_def tally_def bump_def get_def assign_def
  inherited_functions_def term_of_def js_times_def fl_def round_mag_def shift_small shift_large
  js_sort_def orderByField_currency_def posting_def Debit_def Credit_def less_char_def Let_def

lemmas eval_defs = mergeElements_def bal_defs
  new_transaction_def empty_heap_def blank_def alloc_def construct_def

lemmas merge_defs = mergeElements_def isBalanced_def p_getBalances_def tally_def bump_def
  get_def assign_def inherited_functions_def term_of_def js_times_def fl_def round_mag_def
  shift_small shift_large js_sort_def orderByField_currency_def less_char_def alloc_def
  construct_def





















































subsection \<open>\<open>mergeElements\<close>\<close>

lemma mergeLoop_frame:
  "mergeLoop i cs p els h = (h', r) \<Longrightarrow>
     next_addr h \<le> next_addr h' \<and> (\<forall>a < next_addr h. objs h' a = objs h a)"
proof (induction cs arbitrary: i p els h)
  case Nil
  then show ?case by simp
next
  case (Cons c cs)
  let ?e0 = "construct c"
  let ?child = "parentId ?e0 = Some (- 1)"
  let ?e = "if ?child then ?e0\<lparr>p_parent := p\<rparr> else ?e0\<lparr>parentId := Some 0\<rparr>"
  let ?a = "next_addr h"
  let ?h1 = "h\<lparr>objs := (objs h)(?a := ?e), next_addr := Suc ?a\<rparr>"
  let ?p' = "if ?child then p else Some ?a"
  have frame1: "next_addr h \<le> next_addr ?h1 \<and> (\<forall>a < next_addr h. objs ?h1 a = objs h a)"
    by simp
  show ?case
  proof (cases "id_e ?e")
    case None
    with Cons.prems have "mergeLoop (Suc i) cs ?p' (els @ [?a]) ?h1 = (h', r)"
      by (simp add: Let_def alloc_def split: if_splits)
    from Cons.IH [OF this] frame1 show ?thesis by auto
  next
    case (Some k)
    show ?thesis
    proof (cases "replaceById (objs ?h1) (Some k) ?a els")
      case None
      with Some Cons.prems have "h' = ?h1"
        by (simp add: Let_def alloc_def split: if_splits)
      with frame1 show ?thesis by simp
    next
      case (Some els1)
      with \<open>id_e ?e = Some k\<close> Cons.prems
      have "mergeLoop (Suc i) cs ?p' els1 ?h1 = (h', r)"
        by (simp add: Let_def alloc_def split: if_splits)
      from Cons.IH [OF this] frame1 show ?thesis by auto
    qed
  qed
qed

lemma mergeElements_cases:
  "mergeElements list t h = (r, t', h') \<Longrightarrow>
     (\<exists>err. r = Inl err \<and> t' = t \<and> h' = h)
   \<or> (\<exists>err els. r = Inl err \<and> t' = t \<and> mergeLoop 0 list None (working t) h = (h', els))
   \<or> (\<exists>els. r = Inr () \<and> t' = t\<lparr>elements := Some els\<rparr>
          \<and> mergeLoop 0 list None (working t) h = (h', Inr els)
          \<and> isBalanced (map (objs h') els))"
  unfolding mergeElements_def working_def
  by (simp del: mergeLoop.simps split: list.splits option.splits if_splits prod.splits sum.splits)
     blast+

lemma mergeElements_fail_closed:
  assumes "mergeElements list t h = (Inl err, t', h')"
  shows "t' = t \<and> (\<forall>a < next_addr h. objs h' a = objs h a)"
  using mergeElements_cases [OF assms] mergeLoop_frame by blast

lemma replaceById_Some:
  "replaceById f k a els = Some els' \<Longrightarrow>
     \<exists>j < length els. id_e (f (els ! j)) = k \<and> (\<forall>j' < j. id_e (f (els ! j')) \<noteq> k)
        \<and> els' = els[j := a]"
proof (induction els arbitrary: els')
  case Nil
  then show ?case by simp
next
  case (Cons x xs)
  show ?case
  proof (cases "id_e (f x) = k")
    case True
    with Cons.prems have "els' = a # xs" by simp
    with True show ?thesis by (intro exI [of _ 0]) simp
  next
    case False
    with Cons.prems obtain ys where ys: "replaceById f k a xs = Some ys" and e: "els' = x # ys"
      by (auto split: option.splits)
    from Cons.IH [OF ys] obtain j where j: "j < length xs" "id_e (f (xs ! j)) = k"
      "\<forall>j' < j. id_e (f (xs ! j')) \<noteq> k" "ys = xs[j := a]" by blast
    have "\<forall>j' < Suc j. id_e (f ((x # xs) ! j')) \<noteq> k"
      using False j(3) by (auto simp: less_Suc_eq_0_disj)
    with j e show ?thesis by (intro exI [of _ "Suc j"]) simp
  qed
qed

lemma mergeLoop_step:
  assumes "mergeLoop i (c # cs) p els h = (h', Inr els')"
  shows "\<exists>e els1 p'.
           carries c e \<and>
           mergeLoop (Suc i) cs p' els1
             (h\<lparr>objs := (objs h)(next_addr h := e), next_addr := Suc (next_addr h)\<rparr>) = (h', Inr els') \<and>
           (case id_e c of
              None \<Rightarrow> els1 = els @ [next_addr h]
            | Some k \<Rightarrow>
                (\<exists>j < length els.
                    id_e (((objs h)(next_addr h := e)) (els ! j)) = Some k \<and>
                    (\<forall>j' < j. id_e (((objs h)(next_addr h := e)) (els ! j')) \<noteq> Some k) \<and>
                    els1 = els[j := next_addr h]))"
proof -
  let ?e0 = "construct c"
  let ?child = "parentId ?e0 = Some (- 1)"
  let ?e = "if ?child then ?e0\<lparr>p_parent := p\<rparr> else ?e0\<lparr>parentId := Some 0\<rparr>"
  let ?a = "next_addr h"
  let ?h1 = "h\<lparr>objs := (objs h)(?a := ?e), next_addr := Suc ?a\<rparr>"
  let ?p' = "if ?child then p else Some ?a"
  have car: "carries c ?e" by (simp add: carries_def construct_def)
  have ide: "id_e ?e = id_e c" by (simp add: construct_def)
  show ?thesis
  proof (cases "id_e c")
    case None
    with assms ide have "mergeLoop (Suc i) cs ?p' (els @ [?a]) ?h1 = (h', Inr els')"
      by (simp add: Let_def alloc_def split: if_splits)
    with car None show ?thesis by (intro exI [of _ ?e] exI [of _ "els @ [?a]"] exI [of _ ?p']) simp
  next
    case (Some k)
    with assms ide obtain els1 where r: "replaceById (objs ?h1) (Some k) ?a els = Some els1"
      and m: "mergeLoop (Suc i) cs ?p' els1 ?h1 = (h', Inr els')"
      by (auto simp: Let_def alloc_def split: if_splits option.splits)
    from replaceById_Some [OF r] car m Some show ?thesis
      by (intro exI [of _ ?e] exI [of _ els1] exI [of _ ?p']) simp
  qed
qed

lemma mergeLoop_post:
  assumes "mergeLoop i cs p els h = (h', Inr els')"
    and "\<forall>x \<in> set els. x < next_addr h"
  shows "merge_post h els cs h' els'"
  using assms
proof (induction cs arbitrary: i p els h)
  case Nil
  then show ?case by (simp add: merge_post_def noId_def)
next
  case (Cons c cs)
  define a where "a = next_addr h"
  from mergeLoop_step [OF Cons.prems(1)] obtain e els1 p' where
    car: "carries c e" and
    m: "mergeLoop (Suc i) cs p' els1 (h\<lparr>objs := (objs h)(a := e), next_addr := Suc a\<rparr>) = (h', Inr els')" and
    shape: "case id_e c of
              None \<Rightarrow> els1 = els @ [a]
            | Some k \<Rightarrow>
                (\<exists>j < length els.
                    id_e (((objs h)(a := e)) (els ! j)) = Some k \<and>
                    (\<forall>j' < j. id_e (((objs h)(a := e)) (els ! j')) \<noteq> Some k) \<and>
                    els1 = els[j := a])"
    unfolding a_def by blast
  define h1 where "h1 = h\<lparr>objs := (objs h)(a := e), next_addr := Suc a\<rparr>"
  have wf: "\<forall>x \<in> set els. x < a" using Cons.prems(2) by (simp add: a_def)
  have h1_old: "\<And>x. x < a \<Longrightarrow> objs h1 x = objs h x" and h1_a: "objs h1 a = e"
    and h1_next: "next_addr h1 = Suc a" by (simp_all add: h1_def)
  have els_old: "\<And>j. j < length els \<Longrightarrow> objs h1 (els ! j) = objs h (els ! j)"
    using wf h1_old by simp
  from m have m1: "mergeLoop (Suc i) cs p' els1 h1 = (h', Inr els')" by (simp add: h1_def)
  from mergeLoop_frame [OF m1] have
    fr: "\<And>x. x < Suc a \<Longrightarrow> objs h' x = objs h1 x"
    by (simp add: h1_next)
  have ide: "id_e e = id_e c" using car by (simp add: carries_def)
  text \<open>the shape of the list after this item\<close>
  have shape1: "length els \<le> length els1 \<and> set els1 \<subseteq> insert a (set els)
      \<and> (\<forall>j < length els. id_e (objs h1 (els1 ! j)) = id_e (objs h (els ! j)))
      \<and> (\<forall>j < length els. els1 ! j = els ! j \<or>
            (els1 ! j = a \<and> id_e c \<noteq> None \<and> id_e c = id_e (objs h (els ! j))
             \<and> (\<forall>j' < j. id_e (objs h (els ! j')) \<noteq> id_e (objs h (els ! j)))))
      \<and> (id_e c \<noteq> None \<longrightarrow> length els1 = length els
            \<and> (\<exists>j < length els. id_e (objs h (els ! j)) = id_e c \<and> els1 ! j = a))
      \<and> (id_e c = None \<longrightarrow> els1 = els @ [a])"
  proof (cases "id_e c")
    case None
    with shape have "els1 = els @ [a]" by simp
    with None els_old show ?thesis by (auto simp: nth_append)
  next
    case (Some k)
    with shape obtain j0 where j0: "j0 < length els"
      "id_e (objs h1 (els ! j0)) = Some k"
      "\<forall>j' < j0. id_e (objs h1 (els ! j')) \<noteq> Some k" "els1 = els[j0 := a]"
      by (auto simp: h1_def)
    have k0: "id_e (objs h (els ! j0)) = Some k" using j0 els_old by simp
    have first: "\<forall>j' < j0. id_e (objs h (els ! j')) \<noteq> Some k"
      using j0 els_old by simp
    have "set els1 \<subseteq> insert a (set els)"
      unfolding j0(4) by (rule set_update_subset_insert)
    moreover have "\<forall>j < length els. id_e (objs h1 (els1 ! j)) = id_e (objs h (els ! j))"
      using j0 k0 els_old h1_a ide Some by (auto simp: nth_list_update)
    moreover have "\<forall>j < length els. els1 ! j = els ! j \<or>
            (els1 ! j = a \<and> id_e c \<noteq> None \<and> id_e c = id_e (objs h (els ! j))
             \<and> (\<forall>j' < j. id_e (objs h (els ! j')) \<noteq> id_e (objs h (els ! j))))"
      using j0 k0 first Some by (auto simp: nth_list_update)
    moreover have "\<exists>j < length els. id_e (objs h (els ! j)) = id_e c \<and> els1 ! j = a"
      using j0 k0 Some by (intro exI [of _ j0]) simp
    ultimately show ?thesis using j0(4) Some by simp
  qed
  then have wf1: "\<forall>x \<in> set els1. x < next_addr h1"
    using wf h1_next by (auto simp: less_Suc_eq)
  from Cons.IH [OF m1 wf1] have IH: "merge_post h1 els1 cs h' els'" .
  note P = IH [unfolded merge_post_def h1_next]
  have len1: "length els \<le> length els1" using shape1 by simp
  text \<open>the conjuncts\<close>
  have c1: "length els' = length els + length (noId (c # cs))"
  proof (cases "id_e c")
    case None
    with shape1 have "length els1 = Suc (length els)" by simp
    with P None show ?thesis by (simp add: noId_def)
  next
    case (Some k)
    with shape1 have "length els1 = length els" by simp
    with P Some show ?thesis by (simp add: noId_def)
  qed
  have c2: "\<forall>a \<in> set els'. a < next_addr h'" using P by blast
  have c3: "\<forall>j < length els. id_e (objs h' (els' ! j)) = id_e (objs h (els ! j))"
    using P shape1 len1 by (metis less_le_trans)
  have still: "els' ! j = els1 ! j"
    if "j < length els1" and "id_e (objs h1 (els1 ! j)) = None" for j
  proof -
    from P that(1) have "els' ! j = els1 ! j \<or>
      (\<exists>c \<in> set cs. id_e c \<noteq> None \<and> id_e c = id_e (objs h1 (els1 ! j)))" by blast
    with that(2) show ?thesis by auto
  qed
  have c4: "\<forall>j < length els. els' ! j = els ! j \<or>
         (next_addr h \<le> els' ! j
          \<and> (\<forall>j' < j. id_e (objs h (els ! j')) \<noteq> id_e (objs h (els ! j)))
          \<and> (\<exists>c' \<in> set (c # cs). id_e c' \<noteq> None \<and> id_e c' = id_e (objs h (els ! j))
                \<and> carries c' (objs h' (els' ! j))))"
  proof (intro allI impI)
    fix j assume j: "j < length els"
    then have j1: "j < length els1" using len1 by simp
    have ids: "\<And>j'. j' \<le> j \<Longrightarrow> id_e (objs h1 (els1 ! j')) = id_e (objs h (els ! j'))"
      using shape1 j by simp
    from P j1 consider (same) "els' ! j = els1 ! j"
      | (fresh) "Suc a \<le> els' ! j"
          "\<forall>j' < j. id_e (objs h1 (els1 ! j')) \<noteq> id_e (objs h1 (els1 ! j))"
          "\<exists>c' \<in> set cs. id_e c' \<noteq> None \<and> id_e c' = id_e (objs h1 (els1 ! j))
                \<and> carries c' (objs h' (els' ! j))"
      by blast
    then show "els' ! j = els ! j \<or>
         (next_addr h \<le> els' ! j
          \<and> (\<forall>j' < j. id_e (objs h (els ! j')) \<noteq> id_e (objs h (els ! j)))
          \<and> (\<exists>c' \<in> set (c # cs). id_e c' \<noteq> None \<and> id_e c' = id_e (objs h (els ! j))
                \<and> carries c' (objs h' (els' ! j))))"
    proof cases
      case same
      from shape1 j consider "els1 ! j = els ! j"
        | "els1 ! j = a" "id_e c \<noteq> None" "id_e c = id_e (objs h (els ! j))"
          "\<forall>j' < j. id_e (objs h (els ! j')) \<noteq> id_e (objs h (els ! j))"
        by blast
      then show ?thesis
      proof cases
        case 1
        with same show ?thesis by simp
      next
        case 2
        have "objs h' a = e" using fr [of a] h1_a by simp
        with 2 same car show ?thesis by (simp add: a_def)
      qed
    next
      case fresh
      have "next_addr h \<le> els' ! j" using fresh(1) by (simp add: a_def)
      moreover have "\<forall>j' < j. id_e (objs h (els ! j')) \<noteq> id_e (objs h (els ! j))"
        using fresh(2) ids by simp
      moreover have "\<exists>c' \<in> set (c # cs). id_e c' \<noteq> None \<and> id_e c' = id_e (objs h (els ! j))
                \<and> carries c' (objs h' (els' ! j))"
        using fresh(3) ids [of j] by auto
      ultimately show ?thesis by blast
    qed
  qed
  have c5: "\<forall>c' \<in> set (c # cs). id_e c' \<noteq> None \<longrightarrow>
         (\<exists>j < length els. id_e (objs h (els ! j)) = id_e c' \<and> next_addr h \<le> els' ! j)"
  proof (intro ballI impI)
    fix c' assume c': "c' \<in> set (c # cs)" and some: "id_e c' \<noteq> None"
    show "\<exists>j < length els. id_e (objs h (els ! j)) = id_e c' \<and> next_addr h \<le> els' ! j"
    proof (cases "c' \<in> set cs")
      case True
      with P some obtain j where j: "j < length els1" "id_e (objs h1 (els1 ! j)) = id_e c'"
        "Suc a \<le> els' ! j" by blast
      have "j < length els"
      proof (rule ccontr)
        assume "\<not> j < length els"
        with j(1) shape1 have "id_e c = None \<and> els1 = els @ [a] \<and> j = length els"
          by (cases "id_e c") auto
        then have "id_e (objs h1 (els1 ! j)) = None" using h1_a ide by simp
        with j(2) some show False by simp
      qed
      with j shape1 show ?thesis by (intro exI [of _ j]) (simp add: a_def)
    next
      case False
      with c' have eq: "c' = c" by simp
      with some shape1 obtain j where j: "j < length els" "id_e (objs h (els ! j)) = id_e c"
        "els1 ! j = a" by blast
      from P j(1) len1 have "els' ! j = els1 ! j \<or> Suc a \<le> els' ! j"
        by (meson less_le_trans)
      with j eq show ?thesis by (intro exI [of _ j]) (auto simp: a_def)
    qed
  qed
  have c6: "list_all2 carries (noId (c # cs)) (map (objs h') (drop (length els) els'))"
  proof (cases "id_e c")
    case None
    with shape1 have e1: "els1 = els @ [a]" by simp
    have la: "length els < length els'" using c1 None by (simp add: noId_def)
    have "els' ! length els = els1 ! length els"
      by (rule still) (simp_all add: e1 h1_a ide None)
    then have "els' ! length els = a" by (simp add: e1)
    then have "drop (length els) els' = a # drop (length els1) els'"
      using la by (simp add: e1 flip: Cons_nth_drop_Suc)
    moreover have "objs h' a = e" using fr [of a] h1_a by simp
    ultimately show ?thesis using P None car by (simp add: noId_def)
  next
    case (Some k)
    with shape1 have "length els1 = length els" by simp
    with P Some show ?thesis by (simp add: noId_def)
  qed
  have c7: "\<forall>j. length els \<le> j \<and> j < length els' \<longrightarrow> next_addr h \<le> els' ! j"
  proof (intro allI impI)
    fix j assume j: "length els \<le> j \<and> j < length els'"
    show "next_addr h \<le> els' ! j"
    proof (cases "length els1 \<le> j")
      case True
      with P j have "Suc a \<le> els' ! j" by blast
      then show ?thesis by (simp add: a_def)
    next
      case False
      with j shape1 have "id_e c = None \<and> els1 = els @ [a] \<and> j = length els"
        by (cases "id_e c") auto
      then have "els' ! j = els1 ! j \<and> els1 ! j = a"
        using still [of j] h1_a ide by simp
      then show ?thesis by (simp add: a_def)
    qed
  qed
  from c1 c2 c3 c4 c5 c6 c7 show ?case unfolding merge_post_def by blast
qed

subsection \<open>Navigation\<close>

lemma sorted_all_le_last:
  "sorted xs \<Longrightarrow> x \<in> set xs \<Longrightarrow> x \<le> last xs"
  by (induction xs) (auto split: if_splits)

lemma sorted_hd_le_all:
  "sorted xs \<Longrightarrow> x \<in> set xs \<Longrightarrow> hd xs \<le> x"
  by (cases xs) auto

lemma first_id_desc:
  "first_id (orderBy_desc rows) =
     (if rows = [] then 0 else row_id (last (sort_key row_key rows)))"
proof (cases "sort_key row_key rows" rule: rev_cases)
  case Nil
  then have "rows = []" by (metis set_sort set_empty)
  with Nil show ?thesis by (simp add: first_id_def orderBy_desc_def)
next
  case (snoc ys y)
  then have "rows \<noteq> []" by auto
  with snoc show ?thesis by (simp add: first_id_def orderBy_desc_def)
qed

lemma first_id_asc:
  "first_id (orderBy_asc rows) =
     (if rows = [] then 0 else row_id (hd (sort_key row_key rows)))"
proof (cases "sort_key row_key rows")
  case Nil
  then have "rows = []" by (metis set_sort set_empty)
  with Nil show ?thesis by (simp add: first_id_def orderBy_asc_def)
next
  case (Cons y ys)
  then have "rows \<noteq> []" by auto
  with Cons show ?thesis by (simp add: first_id_def orderBy_asc_def)
qed

lemma greatest_row:
  assumes "rows \<noteq> []"
  shows "\<exists>r \<in> set rows. first_id (orderBy_desc rows) = row_id r
           \<and> (\<forall>r' \<in> set rows. row_key r' \<le> row_key r)"
proof -
  let ?ys = "sort_key row_key rows"
  have ne: "?ys \<noteq> []" using assms by (metis set_sort set_empty)
  have mem: "last ?ys \<in> set rows" using last_in_set [OF ne] by simp
  have "\<forall>r' \<in> set rows. row_key r' \<le> row_key (last ?ys)"
  proof
    fix r' assume "r' \<in> set rows"
    then have "row_key r' \<in> set (map row_key ?ys)" by simp
    moreover have "sorted (map row_key ?ys)" by simp
    ultimately have "row_key r' \<le> last (map row_key ?ys)" by (rule sorted_all_le_last [rotated])
    then show "row_key r' \<le> row_key (last ?ys)" using ne by (simp add: last_map)
  qed
  with mem assms show ?thesis by (auto simp: first_id_desc)
qed

lemma least_row:
  assumes "rows \<noteq> []"
  shows "\<exists>r \<in> set rows. first_id (orderBy_asc rows) = row_id r
           \<and> (\<forall>r' \<in> set rows. row_key r \<le> row_key r')"
proof -
  let ?ys = "sort_key row_key rows"
  have ne: "?ys \<noteq> []" using assms by (metis set_sort set_empty)
  have mem: "hd ?ys \<in> set rows" using hd_in_set [OF ne] by simp
  have "\<forall>r' \<in> set rows. row_key (hd ?ys) \<le> row_key r'"
  proof
    fix r' assume "r' \<in> set rows"
    then have "row_key r' \<in> set (map row_key ?ys)" by simp
    moreover have "sorted (map row_key ?ys)" by simp
    ultimately have "hd (map row_key ?ys) \<le> row_key r'" by (rule sorted_hd_le_all [rotated])
    then show "row_key (hd ?ys) \<le> row_key r'" using ne by (simp add: hd_map)
  qed
  with mem assms show ?thesis by (auto simp: first_id_asc)
qed

lemma usable_Some:
  "id_r t = Some i \<Longrightarrow> i \<noteq> 0 \<Longrightarrow> date_r t = Some d \<Longrightarrow> d \<noteq> [] \<Longrightarrow> usable (Some t) = Some (d, i)"
  by simp

lemma usable_None:
  "id_r t = None \<or> id_r t = Some 0 \<or> date_r t = None \<Longrightarrow> usable (Some t) = None"
  by (auto split: option.splits)

lemma whereBefore_key: "usable t = Some (d, i) \<Longrightarrow> whereBefore t r \<longleftrightarrow> row_key r < (d, i)"
  by (auto simp: whereBefore_def row_key_def less_prod_def)

lemma whereAfter_key: "usable t = Some (d, i) \<Longrightarrow> whereAfter t r \<longleftrightarrow> (d, i) < row_key r"
  by (auto simp: whereAfter_def row_key_def less_prod_def)

lemma where_unusable: "usable t = None \<Longrightarrow> whereBefore t r \<and> whereAfter t r"
  by (simp add: whereBefore_def whereAfter_def)

lemmas nav_defs = prevId_def nextId_def first_id_def orderBy_desc_def orderBy_asc_def
  whereBefore_def whereAfter_def row_key_def scenarioD_def less_prod_def less_eq_prod_def
  less_char_def less_eq_char_def

lemma scenarioD_eval:
  "prevId (Some \<lparr>id_r = Some 2, date_r = Some ''2020-01-02''\<rparr>) NoType scenarioD = 1"
  "nextId (Some \<lparr>id_r = Some 2, date_r = Some ''2020-01-02''\<rparr>) NoType scenarioD = 3"
  by (simp_all add: nav_defs)

subsection \<open>\<open>_save\<close>\<close>

lemma same_but_tid_fields:
  assumes "same_but_tid h h'"
  shows "kept (objs h' x) = kept (objs h x)" "hasParent (objs h' x) = hasParent (objs h x)"
    "id_e (objs h' x) = id_e (objs h x)" "amount (objs h' x) = amount (objs h x)"
    "taxCode (objs h' x) = taxCode (objs h x)" "p_parent (objs h' x) = p_parent (objs h x)"
    "parentId (objs h' x) = parentId (objs h x)"
proof -
  from assms have e: "objs h' x = (objs h x)\<lparr>transactionId := transactionId (objs h' x)\<rparr>"
    unfolding same_but_tid_def by blast
  show "kept (objs h' x) = kept (objs h x)" by (subst e) (simp add: kept_def)
  show "hasParent (objs h' x) = hasParent (objs h x)" by (subst e) (simp add: hasParent_def)
  show "id_e (objs h' x) = id_e (objs h x)" by (subst e) simp
  show "amount (objs h' x) = amount (objs h x)" by (subst e) simp
  show "taxCode (objs h' x) = taxCode (objs h x)" by (subst e) simp
  show "p_parent (objs h' x) = p_parent (objs h x)" by (subst e) simp
  show "parentId (objs h' x) = parentId (objs h x)" by (subst e) simp
qed

lemma same_but_tid_refl: "same_but_tid h h"
  by (simp add: same_but_tid_def)

lemma same_but_tid_trans: "same_but_tid h h1 \<Longrightarrow> same_but_tid h1 h2 \<Longrightarrow> same_but_tid h h2"
  unfolding same_but_tid_def
proof (intro conjI allI)
  assume a: "next_addr h1 = next_addr h \<and> (\<forall>x. objs h1 x = (objs h x)\<lparr>transactionId := transactionId (objs h1 x)\<rparr>)"
    and b: "next_addr h2 = next_addr h1 \<and> (\<forall>x. objs h2 x = (objs h1 x)\<lparr>transactionId := transactionId (objs h2 x)\<rparr>)"
  show "next_addr h2 = next_addr h" using a b by simp
  fix x
  from a have a': "objs h1 x = (objs h x)\<lparr>transactionId := transactionId (objs h1 x)\<rparr>" by blast
  from b have b': "objs h2 x = (objs h1 x)\<lparr>transactionId := transactionId (objs h2 x)\<rparr>" by blast
  show "objs h2 x = (objs h x)\<lparr>transactionId := transactionId (objs h2 x)\<rparr>"
    by (subst b', subst a') simp
qed

lemma batch_step_cases:
  "batch_step tid (h, ps, cs, ds) a = (h1, ps1, cs1, ds1) \<Longrightarrow>
     same_but_tid h h1
   \<and> ps1 = ps @ (if kept (objs h a) \<and> \<not> hasParent (objs h a) then [a] else [])
   \<and> cs1 = cs @ (if kept (objs h a) \<and> hasParent (objs h a) then [a] else [])
   \<and> ds1 = ds @ (if \<not> kept (objs h a) \<and> truthy (id_e (objs h a)) then [a] else [])"
  by (auto simp: batch_step_def Let_def kept_def hasParent_def same_but_tid_def
      split: if_splits)

lemma batches_acc:
  "foldl (batch_step tid) (h, ps, cs, ds) es = (h', ps', cs', ds') \<Longrightarrow>
     same_but_tid h h'
   \<and> ps' = ps @ filter (\<lambda>a. kept (objs h a) \<and> \<not> hasParent (objs h a)) es
   \<and> cs' = cs @ filter (\<lambda>a. kept (objs h a) \<and> hasParent (objs h a)) es
   \<and> ds' = ds @ filter (\<lambda>a. \<not> kept (objs h a) \<and> truthy (id_e (objs h a))) es"
proof (induction es arbitrary: h ps cs ds)
  case Nil
  then show ?case by (simp add: same_but_tid_refl)
next
  case (Cons a es)
  obtain h1 ps1 cs1 ds1 where st: "batch_step tid (h, ps, cs, ds) a = (h1, ps1, cs1, ds1)"
    by (metis prod_cases4)
  note s1 = batch_step_cases [OF st]
  from Cons.prems st have "foldl (batch_step tid) (h1, ps1, cs1, ds1) es = (h', ps', cs', ds')"
    by simp
  note r = Cons.IH [OF this]
  from s1 have sb: "same_but_tid h h1" by blast
  note f = same_but_tid_fields [OF sb]
  have "same_but_tid h h'" using sb r same_but_tid_trans by blast
  moreover have "ps' = ps @ filter (\<lambda>a. kept (objs h a) \<and> \<not> hasParent (objs h a)) (a # es)"
    using r s1 by (simp add: f)
  moreover have "cs' = cs @ filter (\<lambda>a. kept (objs h a) \<and> hasParent (objs h a)) (a # es)"
    using r s1 by (simp add: f)
  moreover have "ds' = ds @ filter (\<lambda>a. \<not> kept (objs h a) \<and> truthy (id_e (objs h a))) (a # es)"
    using r s1 by (simp add: f)
  ultimately show ?case by blast
qed

lemma batches_char:
  "batches tid es h = (h', ps, cs, ds) \<Longrightarrow>
     same_but_tid h h'
   \<and> ps = filter (\<lambda>a. kept (objs h a) \<and> \<not> hasParent (objs h a)) es
   \<and> cs = filter (\<lambda>a. kept (objs h a) \<and> hasParent (objs h a)) es
   \<and> ds = filter (\<lambda>a. \<not> kept (objs h a) \<and> truthy (id_e (objs h a))) es"
  unfolding batches_def using batches_acc [of tid h "[]" "[]" "[]" es h' ps cs ds] by simp

lemma saves_of_append [simp]: "saves_of x (as @ bs) = saves_of x as @ saves_of x bs"
  by (simp add: saves_of_def map_filter_def)

lemma deletes_of_append [simp]: "deletes_of x (as @ bs) = deletes_of x as @ deletes_of x bs"
  by (simp add: deletes_of_def map_filter_def)

lemma saves_of_single [simp]:
  "saves_of x [ElementSave y e] = (if x = y then [e] else [])"
  "saves_of x [ElementDelete y e] = []"
  "saves_of x [TxnInsert i] = []" "saves_of x [TxnPatch i] = []" "saves_of x [] = []"
  by (simp_all add: saves_of_def map_filter_def)

lemma deletes_of_single [simp]:
  "deletes_of x [ElementDelete y e] = (if x = y then [e] else [])"
  "deletes_of x [ElementSave y e] = []"
  "deletes_of x [TxnInsert i] = []" "deletes_of x [TxnPatch i] = []" "deletes_of x [] = []"
  by (simp_all add: deletes_of_def map_filter_def)

lemma Element_delete_eq:
  "Element_delete x (h, s) = (h, s\<lparr>calls := calls s @ [ElementDelete x (objs h x)]\<rparr>)"
  by (simp add: Element_delete_def)

lemma Element_save_cases:
  assumes "Element_save x (h, s) = (h', s')"
  shows "calls s' = calls s @ [ElementSave x (objs h' x)]"
    and "\<And>y. y \<noteq> x \<Longrightarrow> objs h' y = objs h y"
    and "objs h' x = (objs h x)\<lparr>id_e := id_e (objs h' x)\<rparr>"
  using assms
  by (auto simp: Element_save_def Let_def split: option.splits)

lemma del_frame_refl: "del_frame D h h"
  by (simp add: del_frame_def)

lemma del_frame_trans:
  assumes "del_frame D1 h h1" and "del_frame D2 h1 h2" and "D1 \<subseteq> D" and "D2 \<subseteq> D"
  shows "del_frame D h h2"
  unfolding del_frame_def
proof (intro allI)
  fix x
  from assms(1) have a: "amount (objs h1 x) = amount (objs h x)"
    "taxCode (objs h1 x) = taxCode (objs h x)"
    "p_parent (objs h1 x) = p_parent (objs h x) \<or> (\<exists>e \<in> D1. p_parent (objs h1 x) = Some e)"
    "id_e (objs h1 x) = id_e (objs h x) \<or> (x \<in> D1 \<and> id_e (objs h1 x) = Some 0)"
    unfolding del_frame_def by blast+
  from assms(2) have b: "amount (objs h2 x) = amount (objs h1 x)"
    "taxCode (objs h2 x) = taxCode (objs h1 x)"
    "p_parent (objs h2 x) = p_parent (objs h1 x) \<or> (\<exists>e \<in> D2. p_parent (objs h2 x) = Some e)"
    "id_e (objs h2 x) = id_e (objs h1 x) \<or> (x \<in> D2 \<and> id_e (objs h2 x) = Some 0)"
    unfolding del_frame_def by blast+
  have 1: "amount (objs h2 x) = amount (objs h x)" using a b by simp
  have 2: "taxCode (objs h2 x) = taxCode (objs h x)" using a b by simp
  have 3: "p_parent (objs h2 x) = p_parent (objs h x) \<or> (\<exists>e \<in> D. p_parent (objs h2 x) = Some e)"
    using a(3) b(3) assms(3,4) by auto
  have 4: "id_e (objs h2 x) = id_e (objs h x) \<or> (x \<in> D \<and> id_e (objs h2 x) = Some 0)"
    using a(4) b(4) assms(3,4) by auto
  from 1 2 3 4 show "amount (objs h2 x) = amount (objs h x)
        \<and> taxCode (objs h2 x) = taxCode (objs h x)
        \<and> (p_parent (objs h2 x) = p_parent (objs h x) \<or> (\<exists>e \<in> D. p_parent (objs h2 x) = Some e))
        \<and> (id_e (objs h2 x) = id_e (objs h x) \<or> (x \<in> D \<and> id_e (objs h2 x) = Some 0))"
    by blast
qed

lemma claim_step_frame: "del_frame {e} h (claim_step e h c) \<and> (\<forall>x. id_e (objs (claim_step e h c) x) = id_e (objs h x))"
  by (simp add: del_frame_def claim_step_def)

lemma claim_loop_frame:
  "del_frame {e} h (foldl (claim_step e) h cs)
   \<and> (\<forall>x. id_e (objs (foldl (claim_step e) h cs) x) = id_e (objs h x))"
proof (induction cs arbitrary: h)
  case Nil
  show ?case by (simp add: del_frame_refl)
next
  case (Cons c cs)
  have "del_frame {e} h (foldl (claim_step e) (claim_step e h c) cs)"
    using claim_step_frame [of e h c] Cons.IH [of "claim_step e h c"]
    by (blast intro: del_frame_trans)
  moreover have "\<forall>x. id_e (objs (foldl (claim_step e) (claim_step e h c) cs) x) = id_e (objs h x)"
    using claim_step_frame [of e h c] Cons.IH [of "claim_step e h c"] by simp
  ultimately show ?case by simp
qed

lemma delete_step_cases:
  assumes "delete_step cs (h, s) e = (h', s')"
  shows "del_frame {e} h h'" and "id_e (objs h' e) = Some 0"
    and "\<exists>d. calls s' = calls s @ [ElementDelete e d]"
proof -
  let ?h1 = "foldl (claim_step e) h cs"
  from assms have h': "h' = ?h1\<lparr>objs := (objs ?h1)(e := (objs ?h1 e)\<lparr>id_e := Some 0\<rparr>)\<rparr>"
    and s': "s' = s\<lparr>calls := calls s @ [ElementDelete e (objs ?h1 e)]\<rparr>"
    by (simp_all add: delete_step_def Element_delete_eq Let_def)
  have "del_frame {e} ?h1 h'" by (simp add: h' del_frame_def)
  with claim_loop_frame [of e h cs] show "del_frame {e} h h'"
    by (blast intro: del_frame_trans)
  show "id_e (objs h' e) = Some 0" by (simp add: h')
  show "\<exists>d. calls s' = calls s @ [ElementDelete e d]" by (simp add: s')
qed

lemma delete_loop:
  assumes "foldl (delete_step cs) (h, s) ds = (h', s')"
  shows "del_frame (set ds) h h'
     \<and> (\<forall>x. x \<in> set ds \<or> id_e (objs h x) = Some 0 \<longrightarrow> id_e (objs h' x) = Some 0)
     \<and> (\<forall>x. saves_of x (calls s') = saves_of x (calls s))
     \<and> (\<forall>x. length (deletes_of x (calls s')) = length (deletes_of x (calls s)) + count_list ds x)"
  using assms
proof (induction ds arbitrary: h s)
  case Nil
  then show ?case by (simp add: del_frame_refl)
next
  case (Cons e ds)
  obtain h1 s1 where st: "delete_step cs (h, s) e = (h1, s1)" by (metis surj_pair)
  note s1 = delete_step_cases [OF st]
  from Cons.prems st have "foldl (delete_step cs) (h1, s1) ds = (h', s')" by simp
  note r = Cons.IH [OF this]
  from s1(3) obtain d where d: "calls s1 = calls s @ [ElementDelete e d]" by blast
  have f1: "del_frame (set (e # ds)) h h'"
    using s1(1) r by (auto intro: del_frame_trans)
  have f2: "\<forall>x. x \<in> set (e # ds) \<or> id_e (objs h x) = Some 0 \<longrightarrow> id_e (objs h' x) = Some 0"
  proof (intro allI impI)
    fix x assume x: "x \<in> set (e # ds) \<or> id_e (objs h x) = Some 0"
    have "id_e (objs h1 x) = id_e (objs h x) \<or> id_e (objs h1 x) = Some 0"
      using s1(1) unfolding del_frame_def by blast
    with x s1(2) have "x \<in> set ds \<or> id_e (objs h1 x) = Some 0" by auto
    with r show "id_e (objs h' x) = Some 0" by blast
  qed
  have f3: "\<forall>x. saves_of x (calls s') = saves_of x (calls s)"
    using r d by simp
  have f4: "\<forall>x. length (deletes_of x (calls s')) = length (deletes_of x (calls s)) + count_list (e # ds) x"
    using r d by simp
  from f1 f2 f3 f4 show ?case by blast
qed

lemma par_frame_fields:
  assumes "par_frame P h h'"
  shows "amount (objs h' x) = amount (objs h x)" "p_parent (objs h' x) = p_parent (objs h x)"
    "x \<notin> P \<Longrightarrow> id_e (objs h' x) = id_e (objs h x)"
proof -
  from assms have e: "objs h' x = (objs h x)\<lparr>id_e := id_e (objs h' x)\<rparr>"
    unfolding par_frame_def by blast
  show "amount (objs h' x) = amount (objs h x)" by (subst e) simp
  show "p_parent (objs h' x) = p_parent (objs h x)" by (subst e) simp
  show "x \<notin> P \<Longrightarrow> id_e (objs h' x) = id_e (objs h x)"
    using assms unfolding par_frame_def by simp
qed

lemma parent_loop:
  assumes "foldl parent_step (h, s) ps = (h', s')"
  shows "par_frame (set ps) h h'
     \<and> (\<forall>x. deletes_of x (calls s') = deletes_of x (calls s))
     \<and> (\<forall>x. x \<notin> set ps \<longrightarrow> saves_of x (calls s') = saves_of x (calls s))"
  using assms
proof (induction ps arbitrary: h s)
  case Nil
  then show ?case by (simp add: par_frame_def)
next
  case (Cons e ps)
  obtain h1 s1 where st: "Element_save e (h, s) = (h1, s1)" by (metis surj_pair)
  note s1 = Element_save_cases [OF st]
  have "parent_step (h, s) e = (h1, s1)" using st by (simp add: parent_step_def)
  with Cons.prems have "foldl parent_step (h1, s1) ps = (h', s')"
    by simp
  note r = Cons.IH [OF this]
  have f1: "par_frame (set (e # ps)) h h'"
    unfolding par_frame_def
  proof (intro allI conjI impI)
    fix x
    from r have a: "objs h' x = (objs h1 x)\<lparr>id_e := id_e (objs h' x)\<rparr>"
      and b: "x \<notin> set ps \<Longrightarrow> objs h' x = objs h1 x"
      unfolding par_frame_def by blast+
    have c: "objs h1 x = (objs h x)\<lparr>id_e := id_e (objs h1 x)\<rparr>"
      using s1(2) [of x] s1(3) by (cases "x = e") simp_all
    show "objs h' x = (objs h x)\<lparr>id_e := id_e (objs h' x)\<rparr>"
      by (subst a, subst c) simp
    show "objs h' x = objs h x" if "x \<notin> set (e # ps)"
      using that b s1(2) [of x] by simp
  qed
  have f2: "\<forall>x. deletes_of x (calls s') = deletes_of x (calls s)"
    using r s1(1) by simp
  have f3: "\<forall>x. x \<notin> set (e # ps) \<longrightarrow> saves_of x (calls s') = saves_of x (calls s)"
    using r s1(1) by simp
  from f1 f2 f3 show ?case by blast
qed

lemma child_step_None:
  "p_parent (objs h y) = None \<Longrightarrow> child_step (h, s) y = (h, s)"
  by (simp add: child_step_def)

lemma child_step_Some:
  assumes "p_parent (objs h y) = Some p" and "child_step (h, s) y = (h', s')"
  defines "pid \<equiv> (if truthy (id_e (objs h p)) then id_e (objs h p) else Some 0)"
  shows "\<And>x. x \<noteq> y \<Longrightarrow> objs h' x = objs h x"
    and "p_parent (objs h' y) = None"
    and "amount (objs h' y) = amount (objs h y)"
    and "parentId (objs h' y) = pid"
    and "calls s' = calls s @
           [if \<not> truthy pid \<and> amount (objs h y) = 0 then ElementDelete y (objs h' y)
            else ElementSave y (objs h' y)]"
proof -
  let ?h1 = "h\<lparr>objs := (objs h)(y := (objs h y)\<lparr>parentId := pid, p_parent := None\<rparr>)\<rparr>"
  have step: "(h', s') =
      (if \<not> truthy pid \<and> amount (objs h y) = 0 then Element_delete y (?h1, s)
       else Element_save y (?h1, s))"
    using assms(1,2) by (auto simp: child_step_def pid_def Let_def)
  have A: "(\<forall>x. x \<noteq> y \<longrightarrow> objs h' x = objs h x)
      \<and> objs h' y = (objs ?h1 y)\<lparr>id_e := id_e (objs h' y)\<rparr>
      \<and> calls s' = calls s @
           [if \<not> truthy pid \<and> amount (objs h y) = 0 then ElementDelete y (objs h' y)
            else ElementSave y (objs h' y)]"
  proof (cases "\<not> truthy pid \<and> amount (objs h y) = 0")
    case True
    with step have e: "h' = ?h1" "s' = s\<lparr>calls := calls s @ [ElementDelete y (objs ?h1 y)]\<rparr>"
      by (simp_all add: Element_delete_eq)
    show ?thesis using True by (simp add: e)
  next
    case False
    with step have sv: "Element_save y (?h1, s) = (h', s')" by simp
    note c = Element_save_cases [OF sv]
    have "\<forall>x. x \<noteq> y \<longrightarrow> objs h' x = objs h x" using c(2) by simp
    with c(1,3) False show ?thesis by simp
  qed
  then have B: "objs h' y = (objs ?h1 y)\<lparr>id_e := id_e (objs h' y)\<rparr>" by blast
  show "\<And>x. x \<noteq> y \<Longrightarrow> objs h' x = objs h x" using A by blast
  show "p_parent (objs h' y) = None" by (subst B) simp
  show "amount (objs h' y) = amount (objs h y)" by (subst B) simp
  show "parentId (objs h' y) = pid" by (subst B) simp
  show "calls s' = calls s @
           [if \<not> truthy pid \<and> amount (objs h y) = 0 then ElementDelete y (objs h' y)
            else ElementSave y (objs h' y)]" using A by blast
qed

lemma child_loop_untouched:
  assumes "foldl child_step (h, s) cs = (h', s')"
    and "x \<notin> set cs \<or> p_parent (objs h x) = None"
  shows "saves_of x (calls s') = saves_of x (calls s)
     \<and> deletes_of x (calls s') = deletes_of x (calls s)"
  using assms
proof (induction cs arbitrary: h s)
  case Nil
  then show ?case by simp
next
  case (Cons y cs)
  show ?case
  proof (cases "p_parent (objs h y)")
    case None
    with Cons.prems(1) have "foldl child_step (h, s) cs = (h', s')"
      by (simp add: child_step_None)
    from Cons.IH [OF this] Cons.prems(2) show ?thesis by auto
  next
    case (Some p)
    obtain h1 s1 where st: "child_step (h, s) y = (h1, s1)" by (metis surj_pair)
    note c = child_step_Some [OF Some st]
    from Cons.prems(1) st have l: "foldl child_step (h1, s1) cs = (h', s')" by simp
    have ne: "x \<noteq> y" using Cons.prems(2) Some by auto
    have "x \<notin> set cs \<or> p_parent (objs h1 x) = None"
      using Cons.prems(2) c(1) [OF ne] by auto
    from Cons.IH [OF l this] c(5) ne show ?thesis by (simp split: if_splits)
  qed
qed

lemma child_loop_resolved:
  assumes "foldl child_step (h, s) cs = (h', s')"
    and "x \<in> set cs" and "p_parent (objs h x) = Some p"
    and "p \<notin> set cs" and "\<not> truthy (id_e (objs h p))"
  shows "if amount (objs h x) = 0
         then saves_of x (calls s') = saves_of x (calls s)
            \<and> (\<exists>e. deletes_of x (calls s') = deletes_of x (calls s) @ [e])
         else deletes_of x (calls s') = deletes_of x (calls s)
            \<and> (\<exists>e. saves_of x (calls s') = saves_of x (calls s) @ [e]
                    \<and> parentId e = Some 0 \<and> p_parent e = None)"
  using assms
proof (induction cs arbitrary: h s)
  case Nil
  then show ?case by simp
next
  case (Cons y cs)
  show ?case
  proof (cases "x = y")
    case True
    obtain h1 s1 where st: "child_step (h, s) y = (h1, s1)" by (metis surj_pair)
    from Cons.prems(3) True have pp: "p_parent (objs h y) = Some p" by simp
    note c = child_step_Some [OF pp st]
    have pid: "(if truthy (id_e (objs h p)) then id_e (objs h p) else Some 0) = Some 0"
      using Cons.prems(5) by simp
    from Cons.prems(1) st have l: "foldl child_step (h1, s1) cs = (h', s')" by simp
    have "x \<notin> set cs \<or> p_parent (objs h1 x) = None" using c(2) True by simp
    note u = child_loop_untouched [OF l this]
    have call: "calls s1 = calls s @
           [if amount (objs h y) = 0 then ElementDelete y (objs h1 y)
            else ElementSave y (objs h1 y)]"
      using c(5) unfolding pid by simp
    have "parentId (objs h1 y) = Some 0" using c(4) unfolding pid .
    with u call c(2) True show ?thesis by simp
  next
    case False
    with Cons.prems(2) have xin: "x \<in> set cs" by simp
    have pny: "p \<noteq> y" using Cons.prems(4) by auto
    have pnot: "p \<notin> set cs" using Cons.prems(4) by simp
    show ?thesis
    proof (cases "p_parent (objs h y)")
      case None
      with Cons.prems(1) have "foldl child_step (h, s) cs = (h', s')"
        by (simp add: child_step_None)
      from Cons.IH [OF this xin Cons.prems(3) pnot Cons.prems(5)] show ?thesis .
    next
      case (Some q)
      obtain h1 s1 where st: "child_step (h, s) y = (h1, s1)" by (metis surj_pair)
      note c = child_step_Some [OF Some st]
      from Cons.prems(1) st have l: "foldl child_step (h1, s1) cs = (h', s')" by simp
      have x1: "objs h1 x = objs h x" using c(1) False by simp
      have p1: "objs h1 p = objs h p" using c(1) pny by simp
      have "if amount (objs h1 x) = 0
         then saves_of x (calls s') = saves_of x (calls s1)
            \<and> (\<exists>e. deletes_of x (calls s') = deletes_of x (calls s1) @ [e])
         else deletes_of x (calls s') = deletes_of x (calls s1)
            \<and> (\<exists>e. saves_of x (calls s') = saves_of x (calls s1) @ [e]
                    \<and> parentId e = Some 0 \<and> p_parent e = None)"
        by (rule Cons.IH [OF l xin _ pnot]) (simp_all add: x1 p1 Cons.prems)
      moreover have "saves_of x (calls s1) = saves_of x (calls s)"
        "deletes_of x (calls s1) = deletes_of x (calls s)"
        using c(5) False by (simp_all split: if_splits)
      ultimately show ?thesis by (cases "amount (objs h x) = 0") (simp_all add: x1)
    qed
  qed
qed

lemma p_save_phases:
  assumes "p_save t h s = (t', h', s')" and "elements t = Some es"
  shows "\<exists>tid h1 ps cs ds s2 h2 s3 h3 s4.
           batches tid es h = (h1, ps, cs, ds)
         \<and> foldl (delete_step cs) (h1, s2) ds = (h2, s3)
         \<and> foldl parent_step (h2, s3) ps = (h3, s4)
         \<and> foldl child_step (h3, s4) cs = (h', s')
         \<and> (\<forall>x. saves_of x (calls s2) = saves_of x (calls s)
                \<and> deletes_of x (calls s2) = deletes_of x (calls s))"
proof (cases "id_t t")
  case None
  let ?t1 = "t\<lparr>id_t := Some (next_txn_id s)\<rparr>"
  let ?s2 = "s\<lparr>calls := calls s @ [TxnInsert (next_txn_id s)],
               next_txn_id := next_txn_id s + 1, lastSavedDate := date_t ?t1\<rparr>"
  obtain h1 ps cs ds where b: "batches (id_t ?t1) es h = (h1, ps, cs, ds)"
    by (metis prod_cases4)
  obtain h2 s3 where d: "foldl (delete_step cs) (h1, ?s2) ds = (h2, s3)" by (metis surj_pair)
  obtain h3 s4 where p: "foldl parent_step (h2, s3) ps = (h3, s4)" by (metis surj_pair)
  obtain h4 s5 where c: "foldl child_step (h3, s4) cs = (h4, s5)" by (metis surj_pair)
  have "p_save t h s = (?t1, h4, s5)"
    using b d p c by (simp add: p_save_def None assms(2) Let_def)
  with assms(1) have e: "h4 = h'" "s5 = s'" by simp_all
  have "\<forall>x. saves_of x (calls ?s2) = saves_of x (calls s)
                \<and> deletes_of x (calls ?s2) = deletes_of x (calls s)" by simp
  with b d p c e show ?thesis by blast
next
  case (Some i)
  let ?s2 = "s\<lparr>calls := calls s @ [TxnPatch i], lastSavedDate := date_t t\<rparr>"
  obtain h1 ps cs ds where b: "batches (id_t t) es h = (h1, ps, cs, ds)"
    by (metis prod_cases4)
  obtain h2 s3 where d: "foldl (delete_step cs) (h1, ?s2) ds = (h2, s3)" by (metis surj_pair)
  obtain h3 s4 where p: "foldl parent_step (h2, s3) ps = (h3, s4)" by (metis surj_pair)
  obtain h4 s5 where c: "foldl child_step (h3, s4) cs = (h4, s5)" by (metis surj_pair)
  have "p_save t h s = (t, h4, s5)"
    using b d p c by (simp add: p_save_def Some assms(2) Let_def)
  with assms(1) have e: "h4 = h'" "s5 = s'" by simp_all
  have "\<forall>x. saves_of x (calls ?s2) = saves_of x (calls s)
                \<and> deletes_of x (calls ?s2) = deletes_of x (calls s)" by simp
  with b d p c e show ?thesis by blast
qed

text \<open>A kept element whose \<open>_parent\<close> is an element of the transaction that is not kept.\<close>

lemma pending_child_of_dropped:
  assumes run: "p_save t h s = (t', h', s')" and el: "elements t = Some es"
    and r: "r \<in> set es" "\<not> kept (objs h r)"
    and x: "x \<in> set es" "kept (objs h x)" "p_parent (objs h x) = Some r"
  shows "if amount (objs h x) = 0
         then saves_of x (calls s') = saves_of x (calls s)
            \<and> length (deletes_of x (calls s')) = Suc (length (deletes_of x (calls s)))
         else length (deletes_of x (calls s')) = length (deletes_of x (calls s))
            \<and> (\<exists>e. saves_of x (calls s') = saves_of x (calls s) @ [e]
                    \<and> parentId e = Some 0 \<and> p_parent e = None)"
proof -
  from p_save_phases [OF run el] obtain tid h1 ps cs ds s2 h2 s3 h3 s4 where
    b: "batches tid es h = (h1, ps, cs, ds)" and
    d: "foldl (delete_step cs) (h1, s2) ds = (h2, s3)" and
    p: "foldl parent_step (h2, s3) ps = (h3, s4)" and
    c: "foldl child_step (h3, s4) cs = (h', s')" and
    c2: "\<forall>x. saves_of x (calls s2) = saves_of x (calls s)
                \<and> deletes_of x (calls s2) = deletes_of x (calls s)"
    by blast
  note B = batches_char [OF b]
  from B have sb: "same_but_tid h h1" by blast
  note f1 = same_but_tid_fields [OF sb]
  from B have ps: "ps = filter (\<lambda>a. kept (objs h a) \<and> \<not> hasParent (objs h a)) es"
    and cs: "cs = filter (\<lambda>a. kept (objs h a) \<and> hasParent (objs h a)) es"
    and ds: "ds = filter (\<lambda>a. \<not> kept (objs h a) \<and> truthy (id_e (objs h a))) es"
    by blast+
  note D = delete_loop [OF d]
  from D have df: "del_frame (set ds) h1 h2" by blast
  note P = parent_loop [OF p]
  from P have pf: "par_frame (set ps) h2 h3" by blast
  note f3 = par_frame_fields [OF pf]
  have hp: "hasParent (objs h x)" using x(3) by (simp add: hasParent_def)
  have x_cs: "x \<in> set cs" and x_ps: "x \<notin> set ps" and x_ds: "x \<notin> set ds"
    using x hp by (simp_all add: cs ps ds)
  text \<open>the parent after the deletes: \<open>r\<close> or a deleted element\<close>
  have "p_parent (objs h2 x) = p_parent (objs h1 x) \<or> (\<exists>e \<in> set ds. p_parent (objs h2 x) = Some e)"
    using df unfolding del_frame_def by blast
  then obtain q where q: "p_parent (objs h2 x) = Some q" and q_in: "q = r \<or> q \<in> set ds"
    using x(3) f1(6) [of x] by auto
  have q_drop: "\<not> kept (objs h q)" using q_in r(2) by (auto simp: ds)
  have q_cs: "q \<notin> set cs" and q_ps: "q \<notin> set ps" using q_drop by (simp_all add: cs ps)
  have q_id2: "\<not> truthy (id_e (objs h2 q))"
  proof (cases "q \<in> set ds")
    case True
    with D have "id_e (objs h2 q) = Some 0" by blast
    then show ?thesis by simp
  next
    case False
    with q_in have qr: "q = r" by simp
    from False qr r have "\<not> truthy (id_e (objs h r))" by (simp add: ds)
    moreover have "id_e (objs h2 r) = id_e (objs h1 r)"
      using df False qr unfolding del_frame_def by blast
    ultimately show ?thesis using qr f1(3) [of r] by simp
  qed
  have q3: "p_parent (objs h3 x) = Some q" using q f3(2) [of x] by simp
  have q_id3: "\<not> truthy (id_e (objs h3 q))" using q_id2 f3(3) [OF q_ps] by simp
  have am2: "amount (objs h2 x) = amount (objs h1 x)"
    using df unfolding del_frame_def by blast
  have am: "amount (objs h3 x) = amount (objs h x)"
    using f3(1) [of x] am2 f1(4) [of x] by simp
  note C = child_loop_resolved [OF c x_cs q3 q_cs q_id3, unfolded am]
  have s4: "saves_of x (calls s4) = saves_of x (calls s)"
    using P x_ps D c2 by simp
  have d4: "length (deletes_of x (calls s4)) = length (deletes_of x (calls s))"
  proof -
    have "deletes_of x (calls s4) = deletes_of x (calls s3)" using P by blast
    moreover have "length (deletes_of x (calls s3)) = length (deletes_of x (calls s2)) + count_list ds x"
      using D by blast
    moreover have "count_list ds x = 0" using x_ds by simp
    ultimately show ?thesis using c2 by simp
  qed
  show ?thesis
  proof (cases "amount (objs h x) = 0")
    case True
    with C obtain e where "saves_of x (calls s') = saves_of x (calls s4)"
      "deletes_of x (calls s') = deletes_of x (calls s4) @ [e]" by auto
    with True s4 d4 show ?thesis by simp
  next
    case False
    with C obtain e where "deletes_of x (calls s') = deletes_of x (calls s4)"
      "saves_of x (calls s') = saves_of x (calls s4) @ [e]" "parentId e = Some 0" "p_parent e = None"
      by auto
    with False s4 d4 show ?thesis by simp
  qed
qed

text \<open>An element that is not kept is never saved, and is deleted when it has an id.\<close>

lemma dropped_element:
  assumes run: "p_save t h s = (t', h', s')" and el: "elements t = Some es"
    and x: "\<not> kept (objs h x)"
  shows "saves_of x (calls s') = saves_of x (calls s)"
    and "length (deletes_of x (calls s')) = length (deletes_of x (calls s))
          + count_list (filter (\<lambda>a. truthy (id_e (objs h a))) es) x"
proof -
  from p_save_phases [OF run el] obtain tid h1 ps cs ds s2 h2 s3 h3 s4 where
    b: "batches tid es h = (h1, ps, cs, ds)" and
    d: "foldl (delete_step cs) (h1, s2) ds = (h2, s3)" and
    p: "foldl parent_step (h2, s3) ps = (h3, s4)" and
    c: "foldl child_step (h3, s4) cs = (h', s')" and
    c2: "\<forall>x. saves_of x (calls s2) = saves_of x (calls s)
                \<and> deletes_of x (calls s2) = deletes_of x (calls s)"
    by blast
  note B = batches_char [OF b]
  from B have ps: "ps = filter (\<lambda>a. kept (objs h a) \<and> \<not> hasParent (objs h a)) es"
    and cs: "cs = filter (\<lambda>a. kept (objs h a) \<and> hasParent (objs h a)) es"
    and ds: "ds = filter (\<lambda>a. \<not> kept (objs h a) \<and> truthy (id_e (objs h a))) es"
    by blast+
  have x_cs: "x \<notin> set cs" and x_ps: "x \<notin> set ps" using x by (simp_all add: cs ps)
  note D = delete_loop [OF d]
  note P = parent_loop [OF p]
  have U: "saves_of x (calls s') = saves_of x (calls s4)
     \<and> deletes_of x (calls s') = deletes_of x (calls s4)"
    by (rule child_loop_untouched [OF c]) (simp add: x_cs)
  show "saves_of x (calls s') = saves_of x (calls s)"
    using U P x_ps D c2 by simp
  have "count_list ds x = count_list (filter (\<lambda>a. truthy (id_e (objs h a))) es) x"
    unfolding ds using x by (induction es) auto
  moreover have "deletes_of x (calls s4) = deletes_of x (calls s3)" using P by blast
  moreover have "length (deletes_of x (calls s3)) = length (deletes_of x (calls s2)) + count_list ds x"
    using D by blast
  ultimately show "length (deletes_of x (calls s')) = length (deletes_of x (calls s))
          + count_list (filter (\<lambda>a. truthy (id_e (objs h a))) es) x"
    using U c2 by simp
qed

lemmas save_defs = p_save_def batches_def batch_step_def delete_step_def claim_step_def
  parent_step_def child_step_def Element_save_def Element_delete_def Let_def
  heap_of_def element_def stored_transaction_def empty_storage_def Debit_def Credit_def

text \<open>
  When the root \<open>r\<close> that \<open>a\<close> and \<open>b\<close> refer to through \<open>_parent\<close> is itself an element of
  the transaction, with amount 0 and no tax code, \<open>_save\<close> saves \<open>a\<close> (amount other than
  0) exactly once, with \<open>parentId\<close> 0, and never deletes it; it never saves \<open>b\<close>
  (amount 0), and it deletes \<open>b\<close> if \<open>b\<close> has an id or a tax code.
\<close>

lemma cascade_of_dropped_parent:
  assumes "p_save t h s = (t', h', s')" and "elements t = Some es"
    and "r \<in> set es" and "a \<in> set es" and "b \<in> set es"
    and "amount (objs h r) = 0" and "\<not> truthy_str (taxCode (objs h r))"
    and "p_parent (objs h a) = Some r" and "amount (objs h a) \<noteq> 0"
    and "p_parent (objs h b) = Some r" and "amount (objs h b) = 0"
  shows "(\<exists>e. saves_of a (calls s') = saves_of a (calls s) @ [e] \<and> parentId e = Some 0)
     \<and> length (deletes_of a (calls s')) = length (deletes_of a (calls s))
     \<and> saves_of b (calls s') = saves_of b (calls s)
     \<and> (truthy (id_e (objs h b)) \<or> truthy_str (taxCode (objs h b))
          \<longrightarrow> length (deletes_of b (calls s)) < length (deletes_of b (calls s')))"
proof -
  have r: "\<not> kept (objs h r)" using assms(6,7) by (simp add: kept_def)
  have ka: "kept (objs h a)" using assms(9) by (simp add: kept_def)
  from pending_child_of_dropped [OF assms(1,2,3) r assms(4) ka assms(8)] assms(9)
  have A: "length (deletes_of a (calls s')) = length (deletes_of a (calls s))
            \<and> (\<exists>e. saves_of a (calls s') = saves_of a (calls s) @ [e] \<and> parentId e = Some 0)"
    by auto
  have B: "saves_of b (calls s') = saves_of b (calls s)
     \<and> (truthy (id_e (objs h b)) \<or> truthy_str (taxCode (objs h b))
          \<longrightarrow> length (deletes_of b (calls s)) < length (deletes_of b (calls s')))"
  proof (cases "kept (objs h b)")
    case True
    from pending_child_of_dropped [OF assms(1,2,3) r assms(5) True assms(10)] assms(11)
    show ?thesis by simp
  next
    case False
    note d = dropped_element [OF assms(1,2) False]
    have "0 < count_list (filter (\<lambda>a. truthy (id_e (objs h a))) es) b"
      if "truthy (id_e (objs h b))"
    proof -
      have "b \<in> set (filter (\<lambda>a. truthy (id_e (objs h a))) es)"
        using assms(5) that by simp
      then have "count_list (filter (\<lambda>a. truthy (id_e (objs h a))) es) b \<noteq> 0"
        by (simp only: count_list_0_iff not_not)
      then show ?thesis by simp
    qed
    moreover have "\<not> truthy_str (taxCode (objs h b))" using False by (simp add: kept_def)
    ultimately show ?thesis using d by auto
  qed
  from A B show ?thesis by blast
qed

lemma cascade_of_dropped_parent_example:
  "(\<exists>e. saves_of 1 (calls (snd (snd (p_save (stored_transaction [0, 1, 2, 3]) cascade_heap
                                         empty_storage)))) = [e]
        \<and> parentId e = Some 0)
   \<and> saves_of 2 (calls (snd (snd (p_save (stored_transaction [0, 1, 2, 3]) cascade_heap
                                       empty_storage)))) = []
   \<and> 0 < length (deletes_of 2 (calls (snd (snd (p_save (stored_transaction [0, 1, 2, 3])
                                                    cascade_heap empty_storage)))))"
proof -
  let ?t = "stored_transaction [0, 1, 2, 3]"
  obtain t' h' s' where run: "p_save ?t cascade_heap empty_storage = (t', h', s')"
    by (metis prod_cases3)
  have el: "elements ?t = Some [0, 1, 2, 3]" by (simp add: stored_transaction_def)
  have m: "(0::nat) \<in> set [0, 1, 2, 3]" "(1::nat) \<in> set [0, 1, 2, 3]" "(2::nat) \<in> set [0, 1, 2, 3]"
    by simp_all
  have R: "amount (objs cascade_heap 0) = 0" "\<not> truthy_str (taxCode (objs cascade_heap 0))"
    by (simp_all add: cascade_heap_def heap_of_def element_def)
  have A: "p_parent (objs cascade_heap 1) = Some 0" "amount (objs cascade_heap 1) \<noteq> 0"
    by (simp_all add: cascade_heap_def heap_of_def element_def)
  have B: "p_parent (objs cascade_heap 2) = Some 0" "amount (objs cascade_heap 2) = 0"
    "truthy (id_e (objs cascade_heap 2))"
    by (simp_all add: cascade_heap_def heap_of_def element_def)
  have c0: "calls empty_storage = []" by (simp add: empty_storage_def)
  from cascade_of_dropped_parent [OF run el m R A B(1,2)] B(3)
  show ?thesis unfolding run c0 by simp
qed

section \<open>The claims\<close>




text \<open>
  Claim C2. Whenever \<open>mergeElements\<close> fails, with whichever error, the transaction is
  as it was before the call, in particular its field \<open>elements\<close>. Only when it succeeds
  the field is replaced, by the working copy that the main loop has produced and that
  has passed \<open>isBalanced\<close>. In either case every object that existed before the call
  has the field values it had.
\<close>

theorem mergeElements_failure_keeps_elements:
  assumes "mergeElements list t h = (r, t', h')"
  shows "(\<forall>a < next_addr h. objs h' a = objs h a)
     \<and> (case r of
          Inl err \<Rightarrow> t' = t \<and> elements t' = elements t
        | Inr u \<Rightarrow>
            (\<exists>els. mergeLoop 0 list None (working t) h = (h', Inr els)
                \<and> t' = t\<lparr>elements := Some els\<rparr> \<and> isBalanced (map (objs h') els)))"
proof -
  from mergeElements_cases [OF assms] consider
      (early) err where "r = Inl err" "t' = t" "h' = h"
    | (late) err els where "r = Inl err" "t' = t"
        "mergeLoop 0 list None (working t) h = (h', els)"
    | (ok) els where "r = Inr ()" "t' = t\<lparr>elements := Some els\<rparr>"
        "mergeLoop 0 list None (working t) h = (h', Inr els)" "isBalanced (map (objs h') els)"
    by blast
  then show ?thesis
  proof cases
    case early
    then show ?thesis by simp
  next
    case late
    with mergeLoop_frame [OF late(3)] show ?thesis by simp
  next
    case ok
    with mergeLoop_frame [OF ok(3)] show ?thesis by simp
  qed
qed

theorem mergeElements_failure_keeps_elements_witness:
  "\<exists>t' h'. mergeElements [posting 1 Debit 10 ''USD''] new_transaction empty_heap
       = (Inl NotBalanced, t', h')
     \<and> t' = new_transaction \<and> elements t' = None"
proof -
  let ?r = "mergeElements [posting 1 Debit 10 ''USD''] new_transaction empty_heap"
  have ev: "fst ?r = Inl NotBalanced"
    by (simp add: eval_defs)
  then obtain t' h' where m: "?r = (Inl NotBalanced, t', h')"
    by (cases ?r) (simp del: mergeLoop.simps)
  from mergeElements_failure_keeps_elements [OF m] have "t' = new_transaction" by simp
  moreover have "elements new_transaction = None" by (simp add: new_transaction_def)
  ultimately show ?thesis using m by blast
qed

text \<open>
  Claim C3, as stated, fails. A pending child (its \<open>_parent\<close> is the root at address 0)
  with amount 0 and an empty tax code is put into the batch of the deletes, not into the
  batch of the children, and \<open>_save\<close> deletes it.
\<close>

theorem batches_counterexample:
  "p_parent (objs removed_tax_heap 1) = Some 0
   \<and> amount (objs removed_tax_heap 1) = 0
   \<and> taxCode (objs removed_tax_heap 1) = Some []
   \<and> snd (batches (Some 1) [0, 1, 2] removed_tax_heap) = ([0, 2], [], [1])
   \<and> length (deletes_of 1 (calls (snd (snd (p_save (stored_transaction [0, 1, 2])
                                               removed_tax_heap empty_storage))))) = 1"
  by (simp add: save_defs removed_tax_heap_def deletes_of_def)

text \<open>
  Claim C3, amended. An element is kept when its amount is not 0 or its tax code is not
  empty. The kept elements with a parent reference (a \<open>_parent\<close>, or a \<open>parentId\<close> other
  than 0) form the batch of the children, the other kept elements the batch of the
  parents. The elements that are not kept and have an id other than 0 form the batch of
  the deletes, with or without a parent reference; an element that is not kept and has
  no id is in no batch. An element that is not kept is never saved by \<open>_save\<close>, and is
  deleted once for each of its occurrences among the elements with an id.
\<close>

theorem batches_partition:
  "(batches tid es h = (h1, parents, children, deletes) \<longrightarrow>
       parents = filter (\<lambda>a. kept (objs h a) \<and> \<not> hasParent (objs h a)) es
     \<and> children = filter (\<lambda>a. kept (objs h a) \<and> hasParent (objs h a)) es
     \<and> deletes = filter (\<lambda>a. \<not> kept (objs h a) \<and> truthy (id_e (objs h a))) es)
   \<and> (p_save t h s = (t', h', s') \<and> elements t = Some es \<and> \<not> kept (objs h x) \<longrightarrow>
       saves_of x (calls s') = saves_of x (calls s)
     \<and> length (deletes_of x (calls s')) = length (deletes_of x (calls s))
          + count_list (filter (\<lambda>a. truthy (id_e (objs h a))) es) x)"
  using batches_char [of tid es h h1 parents children deletes]
    dropped_element [of t h s t' h' s' es x]
  by blast

theorem batches_partition_witness:
  "snd (batches (Some 1) [0, 1, 2] removed_tax_heap) = ([0, 2], [], [1])
   \<and> filter (\<lambda>a. kept (objs removed_tax_heap a) \<and> \<not> hasParent (objs removed_tax_heap a)) [0, 1, 2]
       = [0, 2]
   \<and> filter (\<lambda>a. \<not> kept (objs removed_tax_heap a) \<and> truthy (id_e (objs removed_tax_heap a)))
        [0, 1, 2] = [1]
   \<and> saves_of 1 (calls (snd (snd (p_save (stored_transaction [0, 1, 2]) removed_tax_heap
                                       empty_storage)))) = []"
proof -
  let ?t = "stored_transaction [0, 1, 2]"
  obtain h1 ps cs ds where b: "batches (Some 1) [0, 1, 2] removed_tax_heap = (h1, ps, cs, ds)"
    by (metis prod_cases4)
  obtain t' h' s' where run: "p_save ?t removed_tax_heap empty_storage = (t', h', s')"
    by (metis prod_cases3)
  have el: "elements ?t = Some [0, 1, 2]" by (simp add: stored_transaction_def)
  have x: "\<not> kept (objs removed_tax_heap 1)"
    by (simp add: kept_def removed_tax_heap_def heap_of_def element_def)
  have f: "filter (\<lambda>a. kept (objs removed_tax_heap a) \<and> \<not> hasParent (objs removed_tax_heap a)) [0, 1, 2]
       = [0, 2]"
    "filter (\<lambda>a. kept (objs removed_tax_heap a) \<and> hasParent (objs removed_tax_heap a)) [0, 1, 2]
       = []"
    "filter (\<lambda>a. \<not> kept (objs removed_tax_heap a) \<and> truthy (id_e (objs removed_tax_heap a)))
        [0, 1, 2] = [1]"
    by (simp_all add: kept_def hasParent_def removed_tax_heap_def heap_of_def element_def
        Credit_def Debit_def)
  have c0: "calls empty_storage = []" by (simp add: empty_storage_def)
  note th = batches_partition [of "Some 1" "[0, 1, 2]" removed_tax_heap h1 ps cs ds
      ?t empty_storage t' h' s' 1]
  from th b have "ps = [0, 2] \<and> cs = [] \<and> ds = [1]" unfolding f by blast
  moreover from th run el x have "saves_of 1 (calls s') = []" unfolding c0 by simp
  ultimately show ?thesis unfolding b run f by simp
qed

text \<open>
  Claim C4 fails in the code. A stored transaction has a root (id 5, amount 10, no tax
  code) and its balancing debit (id 8). A first edit adds two children of the root that
  have no id yet: the tax posting \<open>a\<close> of amount 10 and the tax posting \<open>b\<close> of amount 0;
  after it both are pending children of the root (their \<open>_parent\<close> is the root's object,
  at address 2). A second edit lists the root with amount 0 and the debit: it succeeds,
  and \<open>mergeElements\<close> puts a new object (address 6) in the root's place, so that the
  children still refer to the object that is no longer an element and has kept its id.
  \<open>_save\<close> then deletes the root, and saves both children with \<open>parentId\<close> 5, the id of
  the row it has just deleted: \<open>a\<close> is not made a root (\<open>parentId\<close> 0), and \<open>b\<close> is saved,
  not deleted.
\<close>

theorem p_save_detached_parent:
  "fst after_first_edit = Inr ()
   \<and> elements (fst (snd after_first_edit)) = Some [2, 5, 3, 4]
   \<and> id_e (objs (snd (snd after_first_edit)) 2) = Some 5
   \<and> id_e (objs (snd (snd after_first_edit)) 3) = None
   \<and> id_e (objs (snd (snd after_first_edit)) 4) = None
   \<and> p_parent (objs (snd (snd after_first_edit)) 3) = Some 2
   \<and> p_parent (objs (snd (snd after_first_edit)) 4) = Some 2
   \<and> fst after_second_edit = Inr ()
   \<and> elements (fst (snd after_second_edit)) = Some [6, 7, 3, 4]
   \<and> id_e (objs (snd (snd after_second_edit)) 6) = Some 5
   \<and> amount (objs (snd (snd after_second_edit)) 6) = 0
   \<and> taxCode (objs (snd (snd after_second_edit)) 6) = Some []
   \<and> amount (objs (snd (snd after_second_edit)) 3) = 10
   \<and> amount (objs (snd (snd after_second_edit)) 4) = 0
   \<and> p_parent (objs (snd (snd after_second_edit)) 3) = Some 2
   \<and> p_parent (objs (snd (snd after_second_edit)) 4) = Some 2
   \<and> map id_e (deletes_of 6 (calls (snd (snd two_edits_then_save)))) = [Some 5]
   \<and> map parentId (saves_of 3 (calls (snd (snd two_edits_then_save)))) = [Some 5]
   \<and> deletes_of 3 (calls (snd (snd two_edits_then_save))) = []
   \<and> map parentId (saves_of 4 (calls (snd (snd two_edits_then_save)))) = [Some 5]
   \<and> deletes_of 4 (calls (snd (snd two_edits_then_save))) = []"
proof -
  have 1: "case after_first_edit of
      (r, t, h) \<Rightarrow> r = Inr () \<and> elements t = Some [2, 5, 3, 4]
        \<and> id_e (objs h 2) = Some 5 \<and> id_e (objs h 3) = None \<and> id_e (objs h 4) = None
        \<and> p_parent (objs h 3) = Some 2 \<and> p_parent (objs h 4) = Some 2"
    by (simp add: after_first_edit_def first_edit_def candidate_def loaded_heap_def
        save_defs merge_defs)
  have 2: "case after_second_edit of
      (r, t, h) \<Rightarrow> r = Inr () \<and> elements t = Some [6, 7, 3, 4]
        \<and> id_e (objs h 6) = Some 5 \<and> amount (objs h 6) = 0 \<and> taxCode (objs h 6) = Some []
        \<and> amount (objs h 3) = 10 \<and> amount (objs h 4) = 0
        \<and> p_parent (objs h 3) = Some 2 \<and> p_parent (objs h 4) = Some 2"
    by (simp add: after_second_edit_def after_first_edit_def first_edit_def second_edit_def
        candidate_def loaded_heap_def save_defs merge_defs)
  have 3: "case two_edits_then_save of
      (t, h, s) \<Rightarrow> map id_e (deletes_of 6 (calls s)) = [Some 5]
        \<and> map parentId (saves_of 3 (calls s)) = [Some 5] \<and> deletes_of 3 (calls s) = []
        \<and> map parentId (saves_of 4 (calls s)) = [Some 5] \<and> deletes_of 4 (calls s) = []"
    by (simp add: two_edits_then_save_def after_second_edit_def after_first_edit_def
        first_edit_def second_edit_def candidate_def loaded_heap_def save_defs merge_defs
        saves_of_def deletes_of_def eval_nat_numeral)
  from 1 2 3 show ?thesis by (simp add: case_prod_unfold)
qed

text \<open>
  Claim C5. For a reference with a (non-zero) id \<open>i\<close> and a (non-empty) date \<open>d\<close>, among
  the rows that pass the type filter: \<open>prevId\<close> is the id of a row whose pair
  \<open>(date, id)\<close> is the greatest of those lexicographically below \<open>(d, i)\<close>, \<open>nextId\<close> the
  id of a row whose pair is the least of those above, and each is 0 when there is no
  such row. On the three transactions dated 2020-01-01, 2020-01-02, 2020-01-02 with ids
  1, 2, 3 and the reference (2, 2020-01-02), \<open>prevId\<close> is 1 and \<open>nextId\<close> is 3.
  The order on pairs is the lexicographic one: first the date, then the id.
\<close>

theorem prevId_nextId_adjacent:
  assumes "id_r t = Some i" and "i \<noteq> 0" and "date_r t = Some d" and "d \<noteq> []"
  shows
    "(let below = filter (\<lambda>r. whereType ty r \<and> row_key r < (d, i)) db in
        if below = [] then prevId (Some t) ty db = 0
        else \<exists>r \<in> set below. prevId (Some t) ty db = row_id r
               \<and> (\<forall>r' \<in> set below. row_key r' \<le> row_key r))
   \<and> (let above = filter (\<lambda>r. whereType ty r \<and> (d, i) < row_key r) db in
        if above = [] then nextId (Some t) ty db = 0
        else \<exists>r \<in> set above. nextId (Some t) ty db = row_id r
               \<and> (\<forall>r' \<in> set above. row_key r \<le> row_key r'))
   \<and> prevId (Some \<lparr>id_r = Some 2, date_r = Some ''2020-01-02''\<rparr>) NoType scenarioD = 1
   \<and> nextId (Some \<lparr>id_r = Some 2, date_r = Some ''2020-01-02''\<rparr>) NoType scenarioD = 3"
proof -
  have u: "usable (Some t) = Some (d, i)" using assms by (rule usable_Some)
  let ?below = "filter (\<lambda>r. whereType ty r \<and> row_key r < (d, i)) db"
  let ?above = "filter (\<lambda>r. whereType ty r \<and> (d, i) < row_key r) db"
  have p: "prevId (Some t) ty db = first_id (orderBy_desc ?below)"
    by (simp add: prevId_def whereBefore_key [OF u])
  have n: "nextId (Some t) ty db = first_id (orderBy_asc ?above)"
    by (simp add: nextId_def whereAfter_key [OF u])
  have "if ?below = [] then prevId (Some t) ty db = 0
        else \<exists>r \<in> set ?below. prevId (Some t) ty db = row_id r
               \<and> (\<forall>r' \<in> set ?below. row_key r' \<le> row_key r)"
  proof (cases "?below = []")
    case True
    then show ?thesis by (simp add: p first_id_desc)
  next
    case False
    from greatest_row [OF False] False show ?thesis unfolding p by simp
  qed
  moreover have "if ?above = [] then nextId (Some t) ty db = 0
        else \<exists>r \<in> set ?above. nextId (Some t) ty db = row_id r
               \<and> (\<forall>r' \<in> set ?above. row_key r \<le> row_key r')"
  proof (cases "?above = []")
    case True
    then show ?thesis by (simp add: n first_id_asc)
  next
    case False
    from least_row [OF False] False show ?thesis unfolding n by simp
  qed
  ultimately show ?thesis using scenarioD_eval unfolding Let_def by (intro conjI)
qed

theorem prevId_nextId_adjacent_witness:
  "prevId (Some \<lparr>id_r = Some 2, date_r = Some ''2020-01-02''\<rparr>) (OneType Sale) scenarioD = 1
   \<and> nextId (Some \<lparr>id_r = Some 2, date_r = Some ''2020-01-02''\<rparr>) (OneType Sale) scenarioD = 0"
proof -
  let ?t = "\<lparr>id_r = Some 2, date_r = Some ''2020-01-02''\<rparr>"
  have b: "filter (\<lambda>r. whereType (OneType Sale) r \<and> row_key r < (''2020-01-02'', 2)) scenarioD
      = [\<lparr>row_id = 1, row_date = ''2020-01-01'', row_type = Some Sale\<rparr>]"
    by (simp add: nav_defs)
  have a: "filter (\<lambda>r. whereType (OneType Sale) r \<and> (''2020-01-02'', 2) < row_key r) scenarioD = []"
    by (simp add: nav_defs)
  have "id_r ?t = Some 2" "(2::int) \<noteq> 0" "date_r ?t = Some ''2020-01-02''" "''2020-01-02'' \<noteq> []"
    by simp_all
  from prevId_nextId_adjacent [OF this, of "OneType Sale" scenarioD]
  show ?thesis unfolding Let_def a b by simp
qed

text \<open>
  Claim C6. After a successful \<open>mergeElements\<close>, on a transaction whose elements are
  objects of the store: the new list is longer than the previous one by the number of
  candidates without id; every position of the previous list still holds an element
  with the id it held; for every candidate with an id, the first position that held
  that id now holds a new object that carries a candidate with that id; a position
  changes only if some candidate has its id; and the positions past the previous length
  carry the candidates without id, in order.
\<close>

theorem mergeElements_in_place:
  assumes "mergeElements list t h = (Inr u, t', h')"
    and "\<forall>a \<in> set (working t). a < next_addr h"
  shows "\<exists>new. elements t' = Some new
     \<and> length new = length (working t) + length (filter (\<lambda>c. id_e c = None) list)
     \<and> (\<forall>j < length (working t). id_e (objs h' (new ! j)) = id_e (objs h (working t ! j)))
     \<and> (\<forall>c \<in> set list. id_e c \<noteq> None \<longrightarrow>
           (\<exists>j < length (working t).
               id_e (objs h (working t ! j)) = id_e c
             \<and> (\<forall>j' < j. id_e (objs h (working t ! j')) \<noteq> id_e c)
             \<and> new ! j \<noteq> working t ! j
             \<and> (\<exists>c' \<in> set list. id_e c' = id_e c \<and> carries c' (objs h' (new ! j)))))
     \<and> (\<forall>j < length (working t). new ! j \<noteq> working t ! j \<longrightarrow>
           (\<exists>c \<in> set list. id_e c \<noteq> None \<and> id_e c = id_e (objs h (working t ! j))))
     \<and> list_all2 carries (filter (\<lambda>c. id_e c = None) list)
           (map (objs h') (drop (length (working t)) new))"
proof -
  from mergeElements_cases [OF assms(1)] obtain new where
    t': "t' = t\<lparr>elements := Some new\<rparr>" and
    m: "mergeLoop 0 list None (working t) h = (h', Inr new)"
    by auto
  note P = mergeLoop_post [OF m assms(2), unfolded merge_post_def noId_def]
  have old: "\<And>j. j < length (working t) \<Longrightarrow> working t ! j < next_addr h"
    using assms(2) by simp
  have a: "length new = length (working t) + length (filter (\<lambda>c. id_e c = None) list)"
    using P by blast
  have b: "\<forall>j < length (working t). id_e (objs h' (new ! j)) = id_e (objs h (working t ! j))"
    using P by blast
  have c: "\<forall>c \<in> set list. id_e c \<noteq> None \<longrightarrow>
           (\<exists>j < length (working t).
               id_e (objs h (working t ! j)) = id_e c
             \<and> (\<forall>j' < j. id_e (objs h (working t ! j')) \<noteq> id_e c)
             \<and> new ! j \<noteq> working t ! j
             \<and> (\<exists>c' \<in> set list. id_e c' = id_e c \<and> carries c' (objs h' (new ! j))))"
  proof (intro ballI impI)
    fix c assume c: "c \<in> set list" "id_e c \<noteq> None"
    with P obtain j where j: "j < length (working t)"
      "id_e (objs h (working t ! j)) = id_e c" "next_addr h \<le> new ! j" by blast
    from j(1,3) old [of j] have ne: "new ! j \<noteq> working t ! j" by simp
    from P j(1) have "new ! j = working t ! j \<or>
         ((\<forall>j' < j. id_e (objs h (working t ! j')) \<noteq> id_e (objs h (working t ! j)))
          \<and> (\<exists>c \<in> set list. id_e c \<noteq> None \<and> id_e c = id_e (objs h (working t ! j))
                \<and> carries c (objs h' (new ! j))))" by blast
    with ne j(2) have "(\<forall>j' < j. id_e (objs h (working t ! j')) \<noteq> id_e c)
          \<and> (\<exists>c' \<in> set list. id_e c' = id_e c \<and> carries c' (objs h' (new ! j)))"
      by auto
    with j ne show "\<exists>j < length (working t).
               id_e (objs h (working t ! j)) = id_e c
             \<and> (\<forall>j' < j. id_e (objs h (working t ! j')) \<noteq> id_e c)
             \<and> new ! j \<noteq> working t ! j
             \<and> (\<exists>c' \<in> set list. id_e c' = id_e c \<and> carries c' (objs h' (new ! j)))"
      by blast
  qed
  have d: "\<forall>j < length (working t). new ! j \<noteq> working t ! j \<longrightarrow>
           (\<exists>c \<in> set list. id_e c \<noteq> None \<and> id_e c = id_e (objs h (working t ! j)))"
    using P by blast
  have e: "list_all2 carries (filter (\<lambda>c. id_e c = None) list)
           (map (objs h') (drop (length (working t)) new))"
    using P by blast
  from t' a b c d e show ?thesis by simp
qed

theorem mergeElements_in_place_witness:
  "list_all (\<lambda>a. a < next_addr (heap_of [stored 7 1 Debit 10 ''USD'', stored 8 2 Credit 10 ''USD'']))
     (working \<lparr>id_t = Some 1, type_t = Some Raw, date_t = Some ''2020-01-01'',
                elements = Some [0, 1]\<rparr>)
   \<and> (\<exists>t' h'.
        mergeElements
          [(posting 1 Debit 20 ''USD'')\<lparr>id_e := Some 7\<rparr>, posting 2 Credit 10 ''USD'']
          \<lparr>id_t = Some 1, type_t = Some Raw, date_t = Some ''2020-01-01'', elements = Some [0, 1]\<rparr>
          (heap_of [stored 7 1 Debit 10 ''USD'', stored 8 2 Credit 10 ''USD''])
        = (Inr (), t', h')
      \<and> elements t' = Some [2, 1, 3]
      \<and> map (\<lambda>a. id_e (objs h' a)) [2, 1, 3] = [Some 7, Some 8, None])"
proof -
  let ?t = "\<lparr>id_t = Some 1, type_t = Some Raw, date_t = Some ''2020-01-01'',
             elements = Some [0, 1]\<rparr>"
  let ?h = "heap_of [stored 7 1 Debit 10 ''USD'', stored 8 2 Credit 10 ''USD'']"
  let ?l = "[(posting 1 Debit 20 ''USD'')\<lparr>id_e := Some 7\<rparr>, posting 2 Credit 10 ''USD'']"
  let ?r = "mergeElements ?l ?t ?h"
  have wf: "\<forall>a \<in> set (working ?t). a < next_addr ?h"
    by (simp add: working_def heap_of_def)
  have ev: "fst ?r = Inr () \<and> elements (fst (snd ?r)) = Some [2, 1, 3]
      \<and> map (\<lambda>a. id_e (objs (snd (snd ?r)) a)) [2, 1, 3] = [Some 7, Some 8, None]"
    by (simp add: eval_defs heap_of_def stored_def)
  then obtain t' h' where m: "?r = (Inr (), t', h')" and el: "elements t' = Some [2, 1, 3]"
    and ids: "map (\<lambda>a. id_e (objs h' a)) [2, 1, 3] = [Some 7, Some 8, None]"
    by (cases ?r) (simp del: mergeLoop.simps)
  from mergeElements_in_place [OF m wf] obtain new where "elements t' = Some new" by blast
  with el have "new = [2, 1, 3]" by simp
  have "\<exists>t' h'. ?r = (Inr (), t', h') \<and> elements t' = Some [2, 1, 3]
      \<and> map (\<lambda>a. id_e (objs h' a)) [2, 1, 3] = [Some 7, Some 8, None]"
    using m el ids by (intro exI [of _ t'] exI [of _ h'] conjI)
  moreover have "list_all (\<lambda>a. a < next_addr ?h) (working ?t)"
    using wf by (simp only: list_all_iff)
  ultimately show ?thesis by (intro conjI)
qed




text \<open>
  Claim C8. A transaction whose field \<open>elements\<close> is undefined is \<open>balanced\<close>, so \<open>save\<close>
  never rejects it as not balanced: \<open>save\<close> succeeds exactly when the date is valid.
\<close>

theorem save_without_elements:
  assumes "elements t = None"
  shows "balanced t h
     \<and> fst (save isDateOnly t h s) \<noteq> Inl ElementsDoNotBalance
     \<and> (fst (save isDateOnly t h s) = Inr ()
          \<longleftrightarrow> truthy_str (date_t t) \<and> (case date_t t of None \<Rightarrow> False | Some d \<Rightarrow> isDateOnly d))"
  using assms by (simp add: balanced_def save_def split: prod.splits)

theorem save_without_elements_witness:
  "elements (new_transaction\<lparr>date_t := Some ''2020-01-01''\<rparr>) = None
   \<and> balanced (new_transaction\<lparr>date_t := Some ''2020-01-01''\<rparr>) empty_heap
   \<and> fst (save (\<lambda>d. length d = 10) (new_transaction\<lparr>date_t := Some ''2020-01-01''\<rparr>)
             empty_heap empty_storage) = Inr ()"
proof -
  let ?t = "new_transaction\<lparr>date_t := Some ''2020-01-01''\<rparr>"
  have h: "elements ?t = None" by (simp add: new_transaction_def)
  have d: "truthy_str (date_t ?t) \<and> (case date_t ?t of None \<Rightarrow> False | Some d \<Rightarrow> length d = 10)"
    by simp
  from save_without_elements [OF h, of empty_heap "\<lambda>d. length d = 10" empty_storage] d h
  show ?thesis by blast
qed

text \<open>
  Claim C9. A reference whose id is undefined or 0, or whose date is undefined, is
  ignored: \<open>prevId\<close> and \<open>nextId\<close> return what they return without a reference, which is
  the id of the last, respectively the first, row by \<open>(date, id)\<close> among all rows that
  pass the type filter (0 when there is none).
\<close>

theorem prevId_nextId_reference_ignored:
  assumes "id_r t = None \<or> id_r t = Some 0 \<or> date_r t = None"
  shows
    "prevId (Some t) ty db = prevId None ty db
   \<and> nextId (Some t) ty db = nextId None ty db
   \<and> (let rows = filter (whereType ty) db in
        if rows = [] then prevId (Some t) ty db = 0 \<and> nextId (Some t) ty db = 0
        else (\<exists>r \<in> set rows. prevId (Some t) ty db = row_id r
                \<and> (\<forall>r' \<in> set rows. row_key r' \<le> row_key r))
           \<and> (\<exists>r \<in> set rows. nextId (Some t) ty db = row_id r
                \<and> (\<forall>r' \<in> set rows. row_key r \<le> row_key r')))"
proof -
  have u: "usable (Some t) = None" using assms by (rule usable_None)
  let ?rows = "filter (whereType ty) db"
  have p: "prevId (Some t) ty db = first_id (orderBy_desc ?rows)"
    by (simp add: prevId_def where_unusable [OF u])
  have n: "nextId (Some t) ty db = first_id (orderBy_asc ?rows)"
    by (simp add: nextId_def where_unusable [OF u])
  have p0: "prevId None ty db = first_id (orderBy_desc ?rows)"
    by (simp add: prevId_def whereBefore_def)
  have n0: "nextId None ty db = first_id (orderBy_asc ?rows)"
    by (simp add: nextId_def whereAfter_def)
  have "if ?rows = [] then prevId (Some t) ty db = 0 \<and> nextId (Some t) ty db = 0
        else (\<exists>r \<in> set ?rows. prevId (Some t) ty db = row_id r
                \<and> (\<forall>r' \<in> set ?rows. row_key r' \<le> row_key r))
           \<and> (\<exists>r \<in> set ?rows. nextId (Some t) ty db = row_id r
                \<and> (\<forall>r' \<in> set ?rows. row_key r \<le> row_key r'))"
  proof (cases "?rows = []")
    case True
    then show ?thesis by (simp add: p n first_id_desc first_id_asc)
  next
    case False
    from greatest_row [OF False] least_row [OF False] False show ?thesis unfolding p n by simp
  qed
  then show ?thesis unfolding Let_def using p n p0 n0 by simp
qed

theorem prevId_nextId_reference_ignored_witness:
  "prevId (Some \<lparr>id_r = Some 0, date_r = Some ''2020-01-02''\<rparr>) NoType scenarioD
     = prevId None NoType scenarioD
   \<and> nextId (Some \<lparr>id_r = Some 0, date_r = Some ''2020-01-02''\<rparr>) NoType scenarioD
     = nextId None NoType scenarioD
   \<and> prevId None NoType scenarioD = 3
   \<and> nextId None NoType scenarioD = 1"
proof -
  let ?t = "\<lparr>id_r = Some 0, date_r = Some ''2020-01-02''\<rparr>"
  have h: "id_r ?t = None \<or> id_r ?t = Some 0 \<or> date_r ?t = None" by simp
  have v: "prevId None NoType scenarioD = 3 \<and> nextId None NoType scenarioD = 1"
    by (simp add: nav_defs)
  from prevId_nextId_reference_ignored [OF h, of NoType scenarioD] v
  show ?thesis by simp
qed

text \<open>
  Claim C10. \<open>mergeElements\<close> accepts a debit and a credit posting that both have the
  amount \<open>-5\<close> in the same currency, and stores the two amounts as they are.
\<close>

theorem mergeElements_accepts_negative_amounts:
  "case mergeElements [posting 1 Debit (- 5) ''USD'', posting 2 Credit (- 5) ''USD'']
          new_transaction empty_heap of
     (r, t', h') \<Rightarrow>
       r = Inr () \<and> elements t' = Some [0, 1] \<and> map (\<lambda>a. amount (objs h' a)) [0, 1] = [- 5, - 5]"
  by (simp add: eval_defs)

end
